theory Spec2Isabelle
  imports Main
begin

section \<open>Data model of the Minesweeper board engine\<close>

text \<open>
  The source is \<^verbatim>\<open>src/components/Minesweeper.tsx\<close>. A \<^verbatim>\<open>Cell\<close> is an object
  with six fields; the coordinate fields \<^verbatim>\<open>x\<close> and \<^verbatim>\<open>y\<close> are called
  \<open>cell_x\<close> and \<open>cell_y\<close> here, because a record field is a constant and the
  one-letter names are wanted for variables. JavaScript numbers that hold grid
  coordinates and counters are modelled as unbounded integers.
\<close>

record cell =
  cell_x :: int
  cell_y :: int
  isMine :: bool
  isRevealed :: bool
  isFlagged :: bool
  adjacent :: int

datatype GameStatus = Playing | Won | Lost

text \<open>
  The only run-time failure of the engine is the \<^verbatim>\<open>TypeError\<close> that JavaScript
  raises when a property of \<^verbatim>\<open>undefined\<close> is read.
\<close>

datatype error = TypeError

type_synonym Board = "cell list list"

text \<open>
  \<^verbatim>\<open>board[y][x]\<close> followed by a property access. An index outside an array
  yields \<^verbatim>\<open>undefined\<close>, and reading a property of it throws: when \<open>y\<close> is out
  of range the second indexing throws, when only \<open>x\<close> is out of range the field
  access throws.
\<close>

definition cellAt :: "Board \<Rightarrow> int \<Rightarrow> int \<Rightarrow> error + cell" where
  "cellAt board x y =
     (if 0 \<le> y \<and> y < int (length board) then
        (if 0 \<le> x \<and> x < int (length (board ! nat y))
         then Inr (board ! nat y ! nat x)
         else Inl TypeError)
      else Inl TypeError)"

text \<open>Assignment to a field of the object \<^verbatim>\<open>board[y][x]\<close>, in place.\<close>

definition updCell :: "Board \<Rightarrow> int \<Rightarrow> int \<Rightarrow> (cell \<Rightarrow> cell) \<Rightarrow> Board" where
  "updCell board x y f =
     board[nat y := (board ! nat y)[nat x := f (board ! nat y ! nat x)]]"

definition setMine :: "Board \<Rightarrow> int \<Rightarrow> int \<Rightarrow> Board" where
  "setMine board x y = updCell board x y (\<lambda>c. c\<lparr>isMine := True\<rparr>)"

definition setRevealed :: "Board \<Rightarrow> int \<Rightarrow> int \<Rightarrow> Board" where
  "setRevealed board x y = updCell board x y (\<lambda>c. c\<lparr>isRevealed := True\<rparr>)"

definition setAdjacent :: "Board \<Rightarrow> int \<Rightarrow> int \<Rightarrow> int \<Rightarrow> Board" where
  "setAdjacent board x y n = updCell board x y (\<lambda>c. c\<lparr>adjacent := n\<rparr>)"

subsection \<open>Board factory\<close>

text \<open>
  \<^verbatim>\<open>Array.from({ length: n }, f)\<close> builds \<open>f(0), ..., f(n-1)\<close> and treats a
  negative length as zero, which is what \<open>nat\<close> does.
\<close>

definition createEmptyBoard :: "int \<Rightarrow> int \<Rightarrow> Board" where
  "createEmptyBoard rows cols =
     map (\<lambda>y. map (\<lambda>x. \<lparr>cell_x = int x, cell_y = int y, isMine = False,
                          isRevealed = False, isFlagged = False, adjacent = 0\<rparr>)
                 [0..<nat cols])
         [0..<nat rows]"

subsection \<open>Win evaluator and flag counter\<close>

text \<open>
  \<^verbatim>\<open>checkWin\<close> runs two nested \<^verbatim>\<open>for ... of\<close> loops over the rows and their
  cells with the two counters \<open>revealed\<close> and \<open>total\<close> (here \<open>totalc\<close>,
  since \<open>total\<close> is a constant of HOL); its second parameter
  \<open>mines\<close> is not used by the body.
\<close>

definition checkWinCell :: "cell \<Rightarrow> int \<times> int \<Rightarrow> int \<times> int" where
  "checkWinCell c acc =
     (case acc of (revealed, totalc) \<Rightarrow>
        (if \<not> isMine c \<and> isRevealed c then revealed + 1 else revealed,
         if \<not> isMine c then totalc + 1 else totalc))"

definition checkWin :: "Board \<Rightarrow> int \<Rightarrow> bool" where
  "checkWin board mines =
     (case fold (\<lambda>row acc. fold checkWinCell row acc) board (0, 0) of
        (revealed, totalc) \<Rightarrow> revealed = totalc)"

text \<open>\<^verbatim>\<open>board.flat().filter((c) => c.isFlagged).length\<close>\<close>

definition countFlags :: "Board \<Rightarrow> int" where
  "countFlags board = int (length (filter isFlagged (concat board)))"

subsection \<open>Mine placement generator\<close>

text \<open>
  The eight neighbour offsets in the order of the source's two nested loops:
  \<^verbatim>\<open>dy\<close> from -1 to 1 outside, \<^verbatim>\<open>dx\<close> from -1 to 1 inside, the centre
  skipped by \<^verbatim>\<open>continue\<close>.
\<close>

definition neighbourOffsets :: "(int \<times> int) list" where
  "neighbourOffsets =
     [(dx, dy). dy \<leftarrow> [-1, 0, 1], dx \<leftarrow> [-1, 0, 1], \<not> (dx = 0 \<and> dy = 0)]"

text \<open>
  The rejection-sampling loop of \<^verbatim>\<open>placeMines\<close>. The random source is the
  sequence \<open>picks\<close>: \<open>picks k\<close> is the pair
  \<^verbatim>\<open>(Math.floor(Math.random() * cols), Math.floor(Math.random() * rows))\<close> drawn
  in iteration \<open>k\<close>. The loop has no bound, so it is a partial function: the
  value \<open>None\<close> stands for a loop that never ends. \<open>initial\<close> is the
  excluded coordinate \<^verbatim>\<open>{x, y}\<close> as a pair.
\<close>

partial_function (option) placeLoop ::
  "(nat \<Rightarrow> int \<times> int) \<Rightarrow> nat \<Rightarrow> Board \<Rightarrow> int \<Rightarrow> int \<times> int \<Rightarrow> int
     \<Rightarrow> (error + Board) option" where
  "placeLoop picks k board mines initial placed =
     (if placed < mines then
        (case picks k of (x, y) \<Rightarrow>
           if x = fst initial \<and> y = snd initial
           then placeLoop picks (Suc k) board mines initial placed
           else (case cellAt board x y of
                   Inl e \<Rightarrow> Some (Inl e)
                 | Inr c \<Rightarrow>
                     if isMine c
                     then placeLoop picks (Suc k) board mines initial placed
                     else placeLoop picks (Suc k) (setMine board x y) mines initial
                            (placed + 1)))
      else Some (Inr board))"

declare placeLoop.simps [code]

text \<open>The inner two loops: counting the mined neighbours of \<open>(x, y)\<close>.\<close>

fun countLoop ::
  "Board \<Rightarrow> int \<Rightarrow> int \<Rightarrow> int \<Rightarrow> int \<Rightarrow> (int \<times> int) list \<Rightarrow> int \<Rightarrow> error + int" where
  "countLoop board rows cols x y [] count = Inr count"
| "countLoop board rows cols x y ((dx, dy) # ds) count =
     (let ny = y + dy; nx = x + dx in
      if ny \<ge> 0 \<and> ny < rows \<and> nx \<ge> 0 \<and> nx < cols then
        (case cellAt board nx ny of
           Inl e \<Rightarrow> Inl e
         | Inr c \<Rightarrow> countLoop board rows cols x y ds (if isMine c then count + 1 else count))
      else countLoop board rows cols x y ds count)"

text \<open>The coordinates visited by \<^verbatim>\<open>for y < rows\<close>, \<^verbatim>\<open>for x < cols\<close>, in order.\<close>

definition gridCoords :: "int \<Rightarrow> int \<Rightarrow> (int \<times> int) list" where
  "gridCoords rows cols = [(int x, int y). y \<leftarrow> [0..<nat rows], x \<leftarrow> [0..<nat cols]]"

fun adjacentLoop :: "Board \<Rightarrow> int \<Rightarrow> int \<Rightarrow> (int \<times> int) list \<Rightarrow> error + Board" where
  "adjacentLoop board rows cols [] = Inr board"
| "adjacentLoop board rows cols ((x, y) # cs) =
     (case cellAt board x y of
        Inl e \<Rightarrow> Inl e
      | Inr c \<Rightarrow>
          if isMine c then adjacentLoop board rows cols cs
          else (case countLoop board rows cols x y neighbourOffsets 0 of
                  Inl e \<Rightarrow> Inl e
                | Inr count \<Rightarrow> adjacentLoop (setAdjacent board x y count) rows cols cs))"

text \<open>
  \<^verbatim>\<open>placeMines\<close>: \<^verbatim>\<open>board[0].length\<close> throws on a board with no row; then
  the placement loop, then the adjacency pass over the same (mutated) board.
\<close>

definition placeMines ::
  "(nat \<Rightarrow> int \<times> int) \<Rightarrow> Board \<Rightarrow> int \<Rightarrow> int \<times> int \<Rightarrow> (error + Board) option" where
  "placeMines picks board mines initial =
     (case board of
        [] \<Rightarrow> Some (Inl TypeError)
      | row0 # _ \<Rightarrow>
          (let rows = int (length board); cols = int (length row0) in
           case placeLoop picks 0 board mines initial 0 of
             None \<Rightarrow> None
           | Some (Inl e) \<Rightarrow> Some (Inl e)
           | Some (Inr board1) \<Rightarrow>
               Some (adjacentLoop board1 rows cols (gridCoords rows cols))))"

subsection \<open>Reveal propagator\<close>

text \<open>The in-bounds neighbours pushed for a zero cell, in push order.\<close>

definition revealPushes :: "int \<Rightarrow> int \<Rightarrow> int \<Rightarrow> int \<Rightarrow> (int \<times> int) list" where
  "revealPushes rows cols x y =
     filter (\<lambda>(nx, ny). nx \<ge> 0 \<and> nx < cols \<and> ny \<ge> 0 \<and> ny < rows)
       (map (\<lambda>(dx, dy). (x + dx, y + dy)) neighbourOffsets)"

text \<open>
  The coordinates at which a board has a cell, as a finite set: the measure of
  the flood fill counts those not yet visited.
\<close>

definition boardCells :: "Board \<Rightarrow> (int \<times> int) set" where
  "boardCells board =
     set (concat (map (\<lambda>y. map (\<lambda>x. (int x, int y)) [0..<length (board ! y)])
                      [0..<length board]))"

lemma boardCells_iff: "(x, y) \<in> boardCells board \<longleftrightarrow> cellAt board x y \<noteq> Inl TypeError"
proof
  assume "(x, y) \<in> boardCells board"
  then obtain j i where "j < length board" "i < length (board ! j)" "x = int i" "y = int j"
    by (auto simp: boardCells_def)
  then show "cellAt board x y \<noteq> Inl TypeError" by (simp add: cellAt_def)
next
  assume a: "cellAt board x y \<noteq> Inl TypeError"
  then have y: "0 \<le> y" "nat y < length board"
    by (auto simp: cellAt_def split: if_splits)
  with a have x: "0 \<le> x" "nat x < length (board ! nat y)"
    by (auto simp: cellAt_def split: if_splits)
  have "(int i, int j) \<in> boardCells board"
    if "j < length board" "i < length (board ! j)" for i j
    using that by (force simp: boardCells_def)
  from this [OF y(2) x(2)] have "(int (nat x), int (nat y)) \<in> boardCells board" .
  then show "(x, y) \<in> boardCells board" using x(1) y(1) by simp
qed

lemma boardCells_updCell: "boardCells (updCell board x y f) = boardCells board"
proof -
  have "length (updCell board x y f ! j) = length (board ! j)" if "j < length board" for j
    using that by (cases "j = nat y") (simp_all add: updCell_def)
  then show ?thesis
    by (auto simp: boardCells_def updCell_def)
qed

text \<open>
  The loop of \<^verbatim>\<open>revealCell\<close>. \<^verbatim>\<open>stack.pop()\<close> takes the last element of the
  array and \<^verbatim>\<open>stack.push\<close> appends; the string keys \<^verbatim>\<open>`${x},${y}`\<close> of the
  visited set are in one-to-one correspondence with the coordinate pairs.
\<close>

function revealLoop ::
  "int \<Rightarrow> int \<Rightarrow> (int \<times> int) list \<Rightarrow> (int \<times> int) set \<Rightarrow> Board \<Rightarrow> error + Board" where
  "revealLoop rows cols stack visited board =
     (if stack = [] then Inr board
      else (case last stack of (x, y) \<Rightarrow>
        if (x, y) \<in> visited then revealLoop rows cols (butlast stack) visited board
        else (case cellAt board x y of
                Inl e \<Rightarrow> Inl e
              | Inr c \<Rightarrow>
                  if isRevealed c \<or> isFlagged c
                  then revealLoop rows cols (butlast stack) (insert (x, y) visited) board
                  else if adjacent c = 0 \<and> \<not> isMine c
                  then revealLoop rows cols (butlast stack @ revealPushes rows cols x y)
                         (insert (x, y) visited) (setRevealed board x y)
                  else revealLoop rows cols (butlast stack) (insert (x, y) visited)
                         (setRevealed board x y))))"
  by pat_completeness auto
termination
proof (relation "(\<lambda>(rows, cols, stack, visited, board). card (boardCells board - visited))
                   <*mlex*> measure (\<lambda>(rows, cols, stack, visited, board). length stack)")
  show "wf ((\<lambda>(rows, cols, stack, visited, board). card (boardCells board - visited))
              <*mlex*> measure (\<lambda>(rows, cols, stack, visited, board). length stack))"
    by (simp add: wf_mlex)
next
  fix rows cols :: int and stack :: "(int \<times> int) list" and visited :: "(int \<times> int) set"
    and board :: Board and xa :: "int \<times> int" and x y :: int
  assume "stack \<noteq> []" "(x, y) \<in> visited"
  then show "((rows, cols, butlast stack, visited, board), (rows, cols, stack, visited, board))
     \<in> (\<lambda>(rows, cols, stack, visited, board). card (boardCells board - visited))
              <*mlex*> measure (\<lambda>(rows, cols, stack, visited, board). length stack)"
    by (auto intro!: mlex_leq)
next
  fix rows cols :: int and stack :: "(int \<times> int) list" and visited :: "(int \<times> int) set"
    and board :: Board and xa :: "int \<times> int" and x y :: int and c :: cell
  assume a: "(x, y) \<notin> visited" "cellAt board x y = Inr c"
  have "(x, y) \<in> boardCells board - visited" using a by (simp add: boardCells_iff)
  moreover have "finite (boardCells board - visited)" by (simp add: boardCells_def)
  ultimately have lt: "card (boardCells board - insert (x, y) visited)
      < card (boardCells board - visited)"
    by (metis Diff_insert card_Diff1_less)
  show "((rows, cols, butlast stack, insert (x, y) visited, board),
          (rows, cols, stack, visited, board))
     \<in> (\<lambda>(rows, cols, stack, visited, board). card (boardCells board - visited))
              <*mlex*> measure (\<lambda>(rows, cols, stack, visited, board). length stack)"
    using lt by (auto intro!: mlex_less)
  show "((rows, cols, butlast stack @ revealPushes rows cols x y, insert (x, y) visited,
           setRevealed board x y), (rows, cols, stack, visited, board))
     \<in> (\<lambda>(rows, cols, stack, visited, board). card (boardCells board - visited))
              <*mlex*> measure (\<lambda>(rows, cols, stack, visited, board). length stack)"
    using lt by (auto intro!: mlex_less simp: setRevealed_def boardCells_updCell)
  show "((rows, cols, butlast stack, insert (x, y) visited, setRevealed board x y),
          (rows, cols, stack, visited, board))
     \<in> (\<lambda>(rows, cols, stack, visited, board). card (boardCells board - visited))
              <*mlex*> measure (\<lambda>(rows, cols, stack, visited, board). length stack)"
    using lt by (auto intro!: mlex_less simp: setRevealed_def boardCells_updCell)
qed

definition revealCell :: "Board \<Rightarrow> int \<Rightarrow> int \<Rightarrow> error + Board" where
  "revealCell board x y =
     (case board of
        [] \<Rightarrow> Inl TypeError
      | row0 # _ \<Rightarrow> revealLoop (int (length board)) (int (length row0)) [(x, y)] {} board)"

text \<open>
  The same loop with the frontier discipline left open: \<open>sel\<close> chooses the
  position of the frontier element processed next (a position past the end
  counts as the last one). \<open>lifo\<close> is the source's \<^verbatim>\<open>pop\<close>, \<open>fifo\<close> a
  queue. This second definition exists only to state that the order does not
  matter.
\<close>

definition popAt :: "nat \<Rightarrow> 'a list \<Rightarrow> 'a \<times> 'a list" where
  "popAt i xs = (let j = min i (length xs - 1) in (xs ! j, take j xs @ drop (Suc j) xs))"

lemma popAt_length: "xs \<noteq> [] \<Longrightarrow> popAt i xs = (a, rest) \<Longrightarrow> length rest < length xs"
  by (cases xs) (auto simp: popAt_def Let_def)

function revealLoopBy ::
  "((int \<times> int) list \<Rightarrow> nat) \<Rightarrow> int \<Rightarrow> int \<Rightarrow> (int \<times> int) list \<Rightarrow> (int \<times> int) set
     \<Rightarrow> Board \<Rightarrow> error + Board" where
  "revealLoopBy sel rows cols frontier visited board =
     (if frontier = [] then Inr board
      else (case popAt (sel frontier) frontier of ((x, y), rest) \<Rightarrow>
        if (x, y) \<in> visited then revealLoopBy sel rows cols rest visited board
        else (case cellAt board x y of
                Inl e \<Rightarrow> Inl e
              | Inr c \<Rightarrow>
                  if isRevealed c \<or> isFlagged c
                  then revealLoopBy sel rows cols rest (insert (x, y) visited) board
                  else if adjacent c = 0 \<and> \<not> isMine c
                  then revealLoopBy sel rows cols (rest @ revealPushes rows cols x y)
                         (insert (x, y) visited) (setRevealed board x y)
                  else revealLoopBy sel rows cols rest (insert (x, y) visited)
                         (setRevealed board x y))))"
  by pat_completeness auto
termination
proof (relation "(\<lambda>(sel, rows, cols, frontier, visited, board).
                     card (boardCells board - visited))
                   <*mlex*> measure (\<lambda>(sel, rows, cols, frontier, visited, board).
                     length frontier)")
  show "wf ((\<lambda>(sel, rows, cols, frontier, visited, board).
                     card (boardCells board - visited))
                   <*mlex*> measure (\<lambda>(sel, rows, cols, frontier, visited, board).
                     length frontier))"
    by (simp add: wf_mlex)
next
  fix sel :: "(int \<times> int) list \<Rightarrow> nat" and rows cols :: int
    and frontier rest :: "(int \<times> int) list" and visited :: "(int \<times> int) set"
    and board :: Board and xa xb :: "int \<times> int" and x y :: int
  assume "frontier \<noteq> []" "(xa, rest) = popAt (sel frontier) frontier"
  then have "length rest < length frontier" by (metis popAt_length)
  then show "((sel, rows, cols, rest, visited, board),
               (sel, rows, cols, frontier, visited, board))
     \<in> (\<lambda>(sel, rows, cols, frontier, visited, board).
                     card (boardCells board - visited))
                   <*mlex*> measure (\<lambda>(sel, rows, cols, frontier, visited, board).
                     length frontier)"
    by (auto intro!: mlex_leq)
next
  fix sel :: "(int \<times> int) list \<Rightarrow> nat" and rows cols :: int
    and frontier rest :: "(int \<times> int) list" and visited :: "(int \<times> int) set"
    and board :: Board and xa :: "int \<times> int" and x y :: int and c :: cell
  assume a: "(x, y) \<notin> visited" "cellAt board x y = Inr c"
  have "(x, y) \<in> boardCells board - visited" using a by (simp add: boardCells_iff)
  moreover have "finite (boardCells board - visited)" by (simp add: boardCells_def)
  ultimately have lt: "card (boardCells board - insert (x, y) visited)
      < card (boardCells board - visited)"
    by (metis Diff_insert card_Diff1_less)
  show "((sel, rows, cols, rest, insert (x, y) visited, board),
          (sel, rows, cols, frontier, visited, board))
     \<in> (\<lambda>(sel, rows, cols, frontier, visited, board).
                     card (boardCells board - visited))
                   <*mlex*> measure (\<lambda>(sel, rows, cols, frontier, visited, board).
                     length frontier)"
    using lt by (auto intro!: mlex_less)
  show "((sel, rows, cols, rest @ revealPushes rows cols x y, insert (x, y) visited,
           setRevealed board x y), (sel, rows, cols, frontier, visited, board))
     \<in> (\<lambda>(sel, rows, cols, frontier, visited, board).
                     card (boardCells board - visited))
                   <*mlex*> measure (\<lambda>(sel, rows, cols, frontier, visited, board).
                     length frontier)"
    using lt by (auto intro!: mlex_less simp: setRevealed_def boardCells_updCell)
  show "((sel, rows, cols, rest, insert (x, y) visited, setRevealed board x y),
          (sel, rows, cols, frontier, visited, board))
     \<in> (\<lambda>(sel, rows, cols, frontier, visited, board).
                     card (boardCells board - visited))
                   <*mlex*> measure (\<lambda>(sel, rows, cols, frontier, visited, board).
                     length frontier)"
    using lt by (auto intro!: mlex_less simp: setRevealed_def boardCells_updCell)
qed

definition lifo :: "(int \<times> int) list \<Rightarrow> nat" where
  "lifo frontier = length frontier - 1"

definition fifo :: "(int \<times> int) list \<Rightarrow> nat" where
  "fifo frontier = 0"

definition revealCellBy :: "((int \<times> int) list \<Rightarrow> nat) \<Rightarrow> Board \<Rightarrow> int \<Rightarrow> int \<Rightarrow> error + Board" where
  "revealCellBy sel board x y =
     (case board of
        [] \<Rightarrow> Inl TypeError
      | row0 # _ \<Rightarrow>
          revealLoopBy sel (int (length board)) (int (length row0)) [(x, y)] {} board)"

subsection \<open>Game controller\<close>

datatype Difficulty = Beginner | Intermediate | Expert

text \<open>The table \<^verbatim>\<open>DIFFICULTIES\<close>, as \<open>(rows, cols, mines)\<close>.\<close>

fun DIFFICULTIES :: "Difficulty \<Rightarrow> int \<times> int \<times> int" where
  "DIFFICULTIES Beginner = (9, 9, 10)"
| "DIFFICULTIES Intermediate = (16, 16, 40)"
| "DIFFICULTIES Expert = (16, 30, 99)"

text \<open>
  The state of the component: the five \<^verbatim>\<open>useState\<close> cells that the engine
  reads and writes. The interval handle of the clock is left out: the handlers
  below never read it.
\<close>

record session =
  difficulty :: Difficulty
  board :: Board
  status :: GameStatus
  started :: bool
  timer :: int

text \<open>The state after the first render and its mount effect.\<close>

definition freshSession :: "Difficulty \<Rightarrow> session" where
  "freshSession d =
     (case DIFFICULTIES d of (rows, cols, mines) \<Rightarrow>
        \<lparr>difficulty = d, board = createEmptyBoard rows cols, status = Playing,
         started = False, timer = 0\<rparr>)"

definition resetGame :: "session \<Rightarrow> session" where
  "resetGame s =
     (case DIFFICULTIES (difficulty s) of (rows, cols, mines) \<Rightarrow>
        s\<lparr>board := createEmptyBoard rows cols, status := Playing, started := False,
          timer := 0\<rparr>)"

text \<open>Selecting a difficulty re-renders and then runs the effect that resets the game.\<close>

definition setDifficulty :: "Difficulty \<Rightarrow> session \<Rightarrow> session" where
  "setDifficulty d s = resetGame (s\<lparr>difficulty := d\<rparr>)"

text \<open>
  \<^verbatim>\<open>handleCellClick\<close>. The handler works on a deep copy of the board and
  commits it with \<^verbatim>\<open>setBoard\<close>, so the model passes board values. The result
  is \<open>None\<close> when the placement loop never ends; otherwise it is the pair of
  the exception that left the handler, if any, and the state after the handler:
  an exception discards the copy, but a state setter called before it
  (\<^verbatim>\<open>setStarted(true)\<close>) has taken effect. \<^verbatim>\<open>cell\<close> is the object
  \<^verbatim>\<open>newBoard[y][x]\<close>, which \<^verbatim>\<open>placeMines\<close> mutates in place, so its
  \<^verbatim>\<open>isMine\<close> is read from the board after placement.
\<close>

definition handleCellClick ::
  "(nat \<Rightarrow> int \<times> int) \<Rightarrow> session \<Rightarrow> int \<Rightarrow> int \<Rightarrow> (error option \<times> session) option" where
  "handleCellClick picks s x y =
     (if status s \<noteq> Playing then Some (None, s)
      else
        (let newBoard = board s;
             mines = (case DIFFICULTIES (difficulty s) of (rows, cols, mines) \<Rightarrow> mines) in
         case cellAt newBoard x y of
           Inl e \<Rightarrow> Some (Some e, s)
         | Inr cell0 \<Rightarrow>
             if isFlagged cell0 \<or> isRevealed cell0 then Some (None, s)
             else
               (case (if \<not> started s then placeMines picks newBoard mines (x, y)
                      else Some (Inr newBoard)) of
                  None \<Rightarrow> None
                | Some (Inl e) \<Rightarrow> Some (Some e, s)
                | Some (Inr newBoard1) \<Rightarrow>
                    (let s1 = s\<lparr>started := True\<rparr> in
                     case cellAt newBoard1 x y of
                       Inl e \<Rightarrow> Some (Some e, s1)
                     | Inr cell1 \<Rightarrow>
                         if isMine cell1 then
                           Some (None, s1\<lparr>status := Lost,
                             board := map (map (\<lambda>c. if isMine c then c\<lparr>isRevealed := True\<rparr> else c))
                                        (setRevealed newBoard1 x y)\<rparr>)
                         else
                           (case revealCell newBoard1 x y of
                              Inl e \<Rightarrow> Some (Some e, s1)
                            | Inr newBoard2 \<Rightarrow>
                                if checkWin newBoard2 mines then
                                  Some (None, s1\<lparr>status := Won,
                                    board := map (map (\<lambda>c. if isMine c then c\<lparr>isFlagged := True\<rparr> else c))
                                               newBoard2\<rparr>)
                                else Some (None, s1\<lparr>board := newBoard2\<rparr>))))))"

text \<open>\<^verbatim>\<open>handleCellRightClick\<close>: it neither loops nor draws random numbers.\<close>

definition handleCellRightClick :: "session \<Rightarrow> int \<Rightarrow> int \<Rightarrow> error option \<times> session" where
  "handleCellRightClick s x y =
     (if status s \<noteq> Playing \<or> \<not> started s then (None, s)
      else
        (let newBoard = board s in
         case cellAt newBoard x y of
           Inl e \<Rightarrow> (Some e, s)
         | Inr cell0 \<Rightarrow>
             if isRevealed cell0 then (None, s)
             else (None, s\<lparr>board := updCell newBoard x y (\<lambda>c. c\<lparr>isFlagged := \<not> isFlagged c\<rparr>)\<rparr>)))"

text \<open>
  The states a session can be in: the fresh session and what the four engine
  actions make of it, for every outcome of the random draws. An action that
  throws leaves the state the handler had committed so far.
\<close>

inductive reachable :: "session \<Rightarrow> bool" where
  fresh: "reachable (freshSession Beginner)"
| reveal: "reachable s \<Longrightarrow> handleCellClick picks s x y = Some (r, s') \<Longrightarrow> reachable s'"
| flag: "reachable s \<Longrightarrow> handleCellRightClick s x y = (r, s') \<Longrightarrow> reachable s'"
| reset: "reachable s \<Longrightarrow> reachable (resetGame s)"
| change: "reachable s \<Longrightarrow> reachable (setDifficulty d s)"

section \<open>Vocabulary of the specification\<close>

text \<open>
  A board as the specification has it: a rectangular grid with at least one
  row. \<open>inBounds\<close> are the coordinates \<^verbatim>\<open>0 <= x < cols\<close>,
  \<^verbatim>\<open>0 <= y < rows\<close> with \<^verbatim>\<open>rows = board.length\<close> and
  \<^verbatim>\<open>cols = board[0].length\<close>, as the source computes them.
\<close>

definition rect :: "Board \<Rightarrow> bool" where
  "rect b \<longleftrightarrow> b \<noteq> [] \<and> (\<forall>row \<in> set b. length row = length (hd b))"

definition inBounds :: "Board \<Rightarrow> int \<Rightarrow> int \<Rightarrow> bool" where
  "inBounds b x y \<longleftrightarrow> 0 \<le> x \<and> x < int (length (hd b)) \<and> 0 \<le> y \<and> y < int (length b)"

text \<open>Whether the board has a cell at \<open>(x, y)\<close> and that cell is a mine.\<close>

definition mineAt :: "Board \<Rightarrow> int \<Rightarrow> int \<Rightarrow> bool" where
  "mineAt b x y = (case cellAt b x y of Inl e \<Rightarrow> False | Inr c \<Rightarrow> isMine c)"

text \<open>The brute-force count of the mined cells among the eight neighbours.\<close>

definition mineNeighbours :: "Board \<Rightarrow> int \<Rightarrow> int \<Rightarrow> int" where
  "mineNeighbours b x y =
     int (length (filter (\<lambda>(nx, ny). mineAt b nx ny)
       [(x - 1, y - 1), (x, y - 1), (x + 1, y - 1),
        (x - 1, y), (x + 1, y),
        (x - 1, y + 1), (x, y + 1), (x + 1, y + 1)]))"

text \<open>The number of cells of the board with \<^verbatim>\<open>isMine = true\<close>.\<close>

definition mineCount :: "Board \<Rightarrow> nat" where
  "mineCount b = length (filter isMine (concat b))"

text \<open>
  Frames: two boards agree on everything but one field when erasing that field
  in every cell makes them equal.
\<close>

definition eraseMine :: "cell \<Rightarrow> cell" where
  "eraseMine c = c\<lparr>isMine := False\<rparr>"

definition eraseAdjacent :: "cell \<Rightarrow> cell" where
  "eraseAdjacent c = c\<lparr>adjacent := 0\<rparr>"

definition eraseRevealed :: "cell \<Rightarrow> cell" where
  "eraseRevealed c = c\<lparr>isRevealed := False\<rparr>"

text \<open>
  What the placement loop, started with \<open>placed\<close> mines counted on board
  \<open>b\<close>, guarantees of the board \<open>b1\<close> it returns.
\<close>

definition placeInv :: "Board \<Rightarrow> int \<Rightarrow> int \<times> int \<Rightarrow> int \<Rightarrow> Board \<Rightarrow> bool" where
  "placeInv b mines initial placed b1 \<longleftrightarrow>
     map (map eraseMine) b1 = map (map eraseMine) b
     \<and> (placed \<le> mines \<longrightarrow> int (mineCount b1) = int (mineCount b) + (mines - placed))
     \<and> (mineAt b1 (fst initial) (snd initial) = mineAt b (fst initial) (snd initial))
     \<and> (\<forall>x y. mineAt b x y \<longrightarrow> mineAt b1 x y)"

text \<open>The count that the adjacency pass writes into a non-mine cell.\<close>

definition countAt :: "Board \<Rightarrow> int \<Rightarrow> int \<Rightarrow> int \<Rightarrow> int \<Rightarrow> int" where
  "countAt b rows cols x y =
     (case countLoop b rows cols x y neighbourOffsets 0 of Inl e \<Rightarrow> 0 | Inr n \<Rightarrow> n)"

text \<open>
  Flood fill. A cell is \<open>hidden\<close> when it is neither revealed nor flagged:
  these are the cells the loop marks. It \<open>spreads\<close> when, in addition, it is
  not a mine and its \<open>adjacent\<close> count is zero: these are the cells whose
  neighbours the loop pushes.
\<close>

definition hiddenAt :: "Board \<Rightarrow> int \<Rightarrow> int \<Rightarrow> bool" where
  "hiddenAt b x y =
     (case cellAt b x y of Inl e \<Rightarrow> False | Inr c \<Rightarrow> \<not> isRevealed c \<and> \<not> isFlagged c)"

definition spreadsAt :: "Board \<Rightarrow> int \<Rightarrow> int \<Rightarrow> bool" where
  "spreadsAt b x y =
     (case cellAt b x y of
        Inl e \<Rightarrow> False
      | Inr c \<Rightarrow> \<not> isRevealed c \<and> \<not> isFlagged c \<and> adjacent c = 0 \<and> \<not> isMine c)"

definition revealedAt :: "Board \<Rightarrow> int \<Rightarrow> int \<Rightarrow> bool" where
  "revealedAt b x y = (case cellAt b x y of Inl e \<Rightarrow> False | Inr c \<Rightarrow> isRevealed c)"

text \<open>Two different coordinates that are horizontal, vertical or diagonal neighbours.\<close>

definition adjacent8 :: "int \<times> int \<Rightarrow> int \<times> int \<Rightarrow> bool" where
  "adjacent8 p q \<longleftrightarrow> \<bar>fst q - fst p\<bar> \<le> 1 \<and> \<bar>snd q - snd p\<bar> \<le> 1 \<and> q \<noteq> p"

text \<open>
  The region a reveal at \<open>s\<close> processes on board \<open>b\<close>: the start, and every
  in-bounds neighbour of a spreading cell of the region.
\<close>

inductive floods :: "Board \<Rightarrow> int \<times> int \<Rightarrow> int \<times> int \<Rightarrow> bool" for b s where
  start: "floods b s s"
| step: "floods b s p \<Longrightarrow> spreadsAt b (fst p) (snd p) \<Longrightarrow> adjacent8 p q \<Longrightarrow>
           inBounds b (fst q) (snd q) \<Longrightarrow> floods b s q"

text \<open>
  The cell at \<open>(x, y)\<close> of the board that results from revealing the hidden
  cells of the set \<open>V\<close> on \<open>b0\<close>.
\<close>

definition expectedCell :: "Board \<Rightarrow> (int \<times> int) set \<Rightarrow> int \<Rightarrow> int \<Rightarrow> error + cell" where
  "expectedCell b0 V x y =
     (case cellAt b0 x y of
        Inl e \<Rightarrow> Inl e
      | Inr c \<Rightarrow> Inr (if (x, y) \<in> V \<and> \<not> isRevealed c \<and> \<not> isFlagged c
                        then c\<lparr>isRevealed := True\<rparr> else c))"

text \<open>
  The invariant of the reveal loop, for the board \<open>b0\<close> and start \<open>s\<close> it was
  called with: frontier and visited set lie in the region, the start is among
  them, the neighbours of a visited spreading cell are queued or visited, and
  the board is \<open>b0\<close> with the hidden visited cells revealed.
\<close>

definition revealInv ::
  "Board \<Rightarrow> int \<times> int \<Rightarrow> (int \<times> int) list \<Rightarrow> (int \<times> int) set \<Rightarrow> Board \<Rightarrow> bool" where
  "revealInv b0 s frontier visited b \<longleftrightarrow>
     (\<forall>p \<in> set frontier \<union> visited. floods b0 s p \<and> inBounds b0 (fst p) (snd p))
     \<and> s \<in> set frontier \<union> visited
     \<and> (\<forall>p \<in> visited. spreadsAt b0 (fst p) (snd p) \<longrightarrow>
           (\<forall>q. adjacent8 p q \<and> inBounds b0 (fst q) (snd q) \<longrightarrow> q \<in> set frontier \<union> visited))
     \<and> map (map eraseRevealed) b = map (map eraseRevealed) b0
     \<and> (\<forall>x y. cellAt b x y = expectedCell b0 visited x y)"

text \<open>
  The region as the specification words it: the connected component of
  zero-adjacency cells around the start, under 8-neighbour adjacency, with
  flagged cells left out. It does not mention cells that are revealed already.
\<close>

definition zeroAt :: "Board \<Rightarrow> int \<times> int \<Rightarrow> bool" where
  "zeroAt b p =
     (case cellAt b (fst p) (snd p) of
        Inl e \<Rightarrow> False
      | Inr c \<Rightarrow> adjacent c = 0 \<and> \<not> isMine c \<and> \<not> isFlagged c)"

inductive zeroComponent :: "Board \<Rightarrow> int \<times> int \<Rightarrow> int \<times> int \<Rightarrow> bool" for b s where
  origin: "zeroAt b s \<Longrightarrow> zeroComponent b s s"
| grow: "zeroComponent b s p \<Longrightarrow> adjacent8 p q \<Longrightarrow> zeroAt b q \<Longrightarrow> zeroComponent b s q"

text \<open>
  Termination of the placement loop. The cells a pick can still be placed on
  are those that are neither a mine nor the excluded cell. The picks are in
  range when they are coordinates of the grid, which is what
  \<^verbatim>\<open>Math.floor(Math.random() * n)\<close> yields; a sequence of picks is fair when
  every cell of the board keeps turning up in it. Uniform random draws are
  fair with probability 1.
\<close>

definition freeCells :: "Board \<Rightarrow> int \<times> int \<Rightarrow> (int \<times> int) set" where
  "freeCells b initial =
     {p \<in> boardCells b. \<not> mineAt b (fst p) (snd p) \<and> p \<noteq> initial}"

definition picksInRange :: "Board \<Rightarrow> (nat \<Rightarrow> int \<times> int) \<Rightarrow> bool" where
  "picksInRange b picks \<longleftrightarrow> (\<forall>k. inBounds b (fst (picks k)) (snd (picks k)))"

definition fairPicks :: "Board \<Rightarrow> (nat \<Rightarrow> int \<times> int) \<Rightarrow> bool" where
  "fairPicks b picks \<longleftrightarrow> (\<forall>p \<in> boardCells b. \<forall>n. \<exists>k \<ge> n. picks k = p)"

text \<open>
  Game controller. \<open>minesOf\<close> is the mine count of the current difficulty;
  \<open>placedBoard\<close> says that \<open>b1\<close> is the board a click works on after its
  placement step (the board itself once the game has started, the result of
  \<open>placeMines\<close> on the first click); \<open>revealMines\<close> and \<open>flagMines\<close> are the
  two maps over the board in the losing and the winning branch.
\<close>

definition minesOf :: "session \<Rightarrow> int" where
  "minesOf s = (case DIFFICULTIES (difficulty s) of (rows, cols, mines) \<Rightarrow> mines)"

definition placedBoard :: "(nat \<Rightarrow> int \<times> int) \<Rightarrow> session \<Rightarrow> int \<Rightarrow> int \<Rightarrow> Board \<Rightarrow> bool" where
  "placedBoard picks s x y b1 \<longleftrightarrow>
     (if started s then b1 = board s
      else placeMines picks (board s) (minesOf s) (x, y) = Some (Inr b1))"

definition revealMines :: "Board \<Rightarrow> Board" where
  "revealMines b = map (map (\<lambda>c. if isMine c then c\<lparr>isRevealed := True\<rparr> else c)) b"

definition flagMines :: "Board \<Rightarrow> Board" where
  "flagMines b = map (map (\<lambda>c. if isMine c then c\<lparr>isFlagged := True\<rparr> else c)) b"

text \<open>
  The session after an action: the state the handler leaves behind (the state
  before it, should the placement loop never end).
\<close>

definition afterClick :: "(nat \<Rightarrow> int \<times> int) \<Rightarrow> session \<Rightarrow> int \<Rightarrow> int \<Rightarrow> session" where
  "afterClick picks s x y =
     (case handleCellClick picks s x y of None \<Rightarrow> s | Some (r, s') \<Rightarrow> s')"

definition afterRightClick :: "session \<Rightarrow> int \<Rightarrow> int \<Rightarrow> session" where
  "afterRightClick s x y = snd (handleCellRightClick s x y)"

text \<open>
  Frames for the controller: everything but the reveal and flag state, and
  everything but the placement.
\<close>

definition eraseState :: "cell \<Rightarrow> cell" where
  "eraseState c = c\<lparr>isRevealed := False, isFlagged := False\<rparr>"

definition erasePlacement :: "cell \<Rightarrow> cell" where
  "erasePlacement c = c\<lparr>isMine := False, adjacent := 0\<rparr>"

text \<open>
  A board is consistent when every non-mine cell carries its count of mined
  neighbours, and playable when, besides, it is rectangular, no mine is
  revealed and no cell is both revealed and flagged. \<open>sessionInv\<close> is the
  invariant of the sessions the controller can reach.
\<close>

definition consistent :: "Board \<Rightarrow> bool" where
  "consistent b \<longleftrightarrow>
     (\<forall>x y c. cellAt b x y = Inr c \<longrightarrow> \<not> isMine c \<longrightarrow> adjacent c = mineNeighbours b x y)"

definition playable :: "Board \<Rightarrow> bool" where
  "playable b \<longleftrightarrow>
     rect b \<and> consistent b
     \<and> (\<forall>x y c. cellAt b x y = Inr c \<longrightarrow>
           (isMine c \<longrightarrow> \<not> isRevealed c) \<and> \<not> (isRevealed c \<and> isFlagged c))"

definition sessionInv :: "session \<Rightarrow> bool" where
  "sessionInv s \<longleftrightarrow>
     rect (board s)
     \<and> (started s \<longrightarrow> consistent (board s))
     \<and> (\<not> started s \<longrightarrow>
           (\<forall>x y c. cellAt (board s) x y = Inr c \<longrightarrow> \<not> isRevealed c \<and> \<not> isFlagged c))
     \<and> (\<forall>x y c. cellAt (board s) x y = Inr c \<longrightarrow>
           (isMine c \<and> status s \<noteq> Lost \<longrightarrow> \<not> isRevealed c)
           \<and> (isRevealed c \<and> isFlagged c \<longrightarrow> isMine c \<and> status s = Lost))"

text \<open>Concrete cells and boards for the examples.\<close>

definition mkCell :: "int \<Rightarrow> int \<Rightarrow> bool \<Rightarrow> bool \<Rightarrow> bool \<Rightarrow> int \<Rightarrow> cell" where
  "mkCell x y m r f a =
     \<lparr>cell_x = x, cell_y = y, isMine = m, isRevealed = r, isFlagged = f, adjacent = a\<rparr>"

definition oneMineBoard :: Board where
  "oneMineBoard =
     [[mkCell 0 0 False False False 1, mkCell 1 0 False False False 1],
      [mkCell 0 1 False False False 1, mkCell 1 1 True False False 0]]"

text \<open>
  A corridor of four zero cells whose third cell is revealed already, and the
  board after a reveal at its left end.
\<close>

definition corridorBoard :: Board where
  "corridorBoard =
     [[mkCell 0 0 False False False 0, mkCell 1 0 False False False 0,
       mkCell 2 0 False True False 0, mkCell 3 0 False False False 0]]"

definition corridorRevealed :: Board where
  "corridorRevealed =
     [[mkCell 0 0 False True False 0, mkCell 1 0 False True False 0,
       mkCell 2 0 False True False 0, mkCell 3 0 False False False 0]]"

text \<open>Three zero cells with a flag on the middle one, before and after a reveal at the left.\<close>

definition flagBoard :: Board where
  "flagBoard =
     [[mkCell 0 0 False False False 0, mkCell 1 0 False False True 0,
       mkCell 2 0 False False False 0]]"

definition flagBoardRevealed :: Board where
  "flagBoardRevealed =
     [[mkCell 0 0 False True False 0, mkCell 1 0 False False True 0,
       mkCell 2 0 False False False 0]]"

text \<open>Picks that run through the four cells of a 2 by 2 board for ever.\<close>

definition cyclePicks :: "nat \<Rightarrow> int \<times> int" where
  "cyclePicks k = (int (k mod 2), int ((k div 2) mod 2))"

text \<open>
  A Beginner game: the draws put the ten mines on columns 1 to 5 of rows 0 and
  1; the first click is at (0, 0), then the mine at (1, 0) is flagged, then the
  mine at (1, 1) is clicked.
\<close>

definition examplePicks :: "nat \<Rightarrow> int \<times> int" where
  "examplePicks k = (int (1 + k mod 5), int (k div 5))"

definition startedExample :: session where
  "startedExample = afterClick examplePicks (freshSession Beginner) 0 0"

definition flaggedExample :: session where
  "flaggedExample = afterRightClick startedExample 1 0"

definition lostExample :: session where
  "lostExample =
     afterClick examplePicks
       (afterRightClick (afterClick examplePicks (freshSession Beginner) 0 0) 1 0) 1 1"

text \<open>
  A Beginner game in which a revealed cell comes to block the flood: the draws
  put nine mines on row 2 and one at (0, 8), so that row 0 is a corridor of
  zero cells. The first click is at (4, 1); (1, 0) and (3, 0) are flagged,
  (2, 0) is clicked, and the two flags are taken off again.
\<close>

definition rowPicks :: "nat \<Rightarrow> int \<times> int" where
  "rowPicks k = (int (k mod 9), if k < 9 then 2 else 8)"

definition playExample :: session where
  "playExample =
     afterRightClick (afterRightClick
       (afterClick rowPicks
         (afterRightClick (afterRightClick
           (afterClick rowPicks (freshSession Beginner) 4 1) 1 0) 3 0) 2 0) 1 0) 3 0"

section \<open>Win evaluator: proofs\<close>

lemma fold_checkWinCell:
  "fold checkWinCell row (r, t) =
     (r + int (length (filter (\<lambda>c. \<not> isMine c \<and> isRevealed c) row)),
      t + int (length (filter (\<lambda>c. \<not> isMine c) row)))"
  by (induction row arbitrary: r t) (simp_all add: checkWinCell_def)

lemma fold_checkWin_rows:
  "fold (\<lambda>row acc. fold checkWinCell row acc) b (r, t) =
     (r + int (length (filter (\<lambda>c. \<not> isMine c \<and> isRevealed c) (concat b))),
      t + int (length (filter (\<lambda>c. \<not> isMine c) (concat b))))"
  by (induction b arbitrary: r t) (simp_all add: fold_checkWinCell)

lemma checkWin_counts:
  "checkWin b mines \<longleftrightarrow>
     length (filter (\<lambda>c. \<not> isMine c \<and> isRevealed c) (concat b)) =
     length (filter (\<lambda>c. \<not> isMine c) (concat b))"
  by (simp add: checkWin_def fold_checkWin_rows)

lemma filter_conj_length_eq:
  "length (filter (\<lambda>c. P c \<and> Q c) xs) = length (filter P xs) \<longleftrightarrow>
     (\<forall>c \<in> set xs. P c \<longrightarrow> Q c)"
proof (induction xs)
  case Nil
  then show ?case by simp
next
  case (Cons a xs)
  have le: "length (filter (\<lambda>c. P c \<and> Q c) xs) \<le> length (filter P xs)"
    by (induction xs) auto
  show ?case using Cons le by auto
qed

lemma checkWin_all_revealed:
  "checkWin b mines \<longleftrightarrow> (\<forall>c \<in> set (concat b). \<not> isMine c \<longrightarrow> isRevealed c)"
  unfolding checkWin_counts by (rule filter_conj_length_eq)

text \<open>
  Claim C3. For every board, \<open>checkWin\<close> returns true if and only if the number
  of non-mine cells that are revealed equals the number of non-mine cells; and
  a board with at least one hidden non-mine cell makes it return false.
\<close>

theorem checkWin_iff_counts:
  "(checkWin b mines \<longleftrightarrow>
      length (filter (\<lambda>c. \<not> isMine c \<and> isRevealed c) (concat b)) =
      length (filter (\<lambda>c. \<not> isMine c) (concat b)))
   \<and> ((\<exists>c \<in> set (concat b). \<not> isMine c \<and> \<not> isRevealed c) \<longrightarrow> \<not> checkWin b mines)"
  using checkWin_counts [of b mines] checkWin_all_revealed [of b mines] by blast

theorem checkWin_iff_counts_witness:
  "\<not> checkWin [[\<lparr>cell_x = 0, cell_y = 0, isMine = False, isRevealed = True,
                  isFlagged = False, adjacent = 1\<rparr>,
               \<lparr>cell_x = 1, cell_y = 0, isMine = True, isRevealed = False,
                  isFlagged = False, adjacent = 0\<rparr>,
               \<lparr>cell_x = 2, cell_y = 0, isMine = False, isRevealed = False,
                  isFlagged = False, adjacent = 1\<rparr>]] 1
   \<and> checkWin [[\<lparr>cell_x = 0, cell_y = 0, isMine = False, isRevealed = True,
                  isFlagged = False, adjacent = 1\<rparr>,
               \<lparr>cell_x = 1, cell_y = 0, isMine = True, isRevealed = False,
                  isFlagged = False, adjacent = 0\<rparr>]] 1"
  using checkWin_iff_counts [of "[[\<lparr>cell_x = 0, cell_y = 0, isMine = False, isRevealed = True,
                  isFlagged = False, adjacent = 1\<rparr>,
               \<lparr>cell_x = 1, cell_y = 0, isMine = True, isRevealed = False,
                  isFlagged = False, adjacent = 0\<rparr>,
               \<lparr>cell_x = 2, cell_y = 0, isMine = False, isRevealed = False,
                  isFlagged = False, adjacent = 1\<rparr>]]" 1]
    checkWin_iff_counts [of "[[\<lparr>cell_x = 0, cell_y = 0, isMine = False, isRevealed = True,
                  isFlagged = False, adjacent = 1\<rparr>,
               \<lparr>cell_x = 1, cell_y = 0, isMine = True, isRevealed = False,
                  isFlagged = False, adjacent = 0\<rparr>]]" 1]
  by simp

section \<open>Boards, cells and frames\<close>

lemma rect_row_length: "rect b \<Longrightarrow> j < length b \<Longrightarrow> length (b ! j) = length (hd b)"
  unfolding rect_def using nth_mem by blast

lemma rect_cellAt:
  assumes "rect b"
  shows "cellAt b x y = (if inBounds b x y then Inr (b ! nat y ! nat x) else Inl TypeError)"
proof (cases "0 \<le> y \<and> y < int (length b)")
  case True
  then have "nat y < length b" by linarith
  then have "length (b ! nat y) = length (hd b)"
    by (rule rect_row_length [OF assms])
  then show ?thesis using True by (simp add: cellAt_def inBounds_def)
next
  case False
  then show ?thesis by (auto simp add: cellAt_def inBounds_def)
qed

lemma cellAt_Inr_iff: "rect b \<Longrightarrow> (\<exists>c. cellAt b x y = Inr c) \<longleftrightarrow> inBounds b x y"
  by (simp add: rect_cellAt)

lemma map_map_updCell:
  assumes "\<And>c. g (f c) = g c"
  shows "map (map g) (updCell b x y f) = map (map g) b"
proof -
  have row: "map g (r[i := f (r ! i)]) = map g r" for r :: "cell list" and i
  proof (cases "i < length r")
    case True
    then show ?thesis by (simp add: map_update assms list_update_same_conv)
  next
    case False
    then show ?thesis by (simp add: list_update_beyond)
  qed
  have upd: "map (map g) (b[j := r']) = map (map g) b" if "map g r' = map g (b ! j)" for j r'
  proof (cases "j < length b")
    case True
    then show ?thesis using that by (simp add: map_update list_update_same_conv)
  next
    case False
    then show ?thesis by (simp add: list_update_beyond)
  qed
  show ?thesis unfolding updCell_def by (rule upd) (rule row)
qed

lemma frame_length: "map (map g) b = map (map g) b' \<Longrightarrow> map length b' = map length b"
proof -
  assume "map (map g) b = map (map g) b'"
  then have "map length (map (map g) b) = map length (map (map g) b')" by simp
  then show ?thesis by (simp add: comp_def)
qed

lemma shape_rect: "map length b' = map length b \<Longrightarrow> rect b \<Longrightarrow> rect b'"
proof -
  assume a: "map length b' = map length b" "rect b"
  then have l: "length b' = length b" by (metis length_map)
  have n: "length (b' ! j) = length (b ! j)" if "j < length b" for j
    using a(1) l that by (metis nth_map)
  from a l have ne: "b' \<noteq> []" by (auto simp: rect_def)
  from a have ne0: "b \<noteq> []" by (auto simp: rect_def)
  have h: "length (hd b') = length (hd b)" using n[of 0] ne ne0 by (simp add: hd_conv_nth)
  show "rect b'" unfolding rect_def
  proof (intro conjI ballI)
    show "b' \<noteq> []" by (rule ne)
    fix row assume "row \<in> set b'"
    then obtain j where j: "j < length b'" "row = b' ! j" by (auto simp: in_set_conv_nth)
    then have r: "length row = length (b ! j)" using n l by simp
    have "b ! j \<in> set b" using j l by simp
    moreover have "\<forall>row \<in> set b. length row = length (hd b)"
      using a(2) unfolding rect_def by blast
    ultimately have "length (b ! j) = length (hd b)" by blast
    then show "length row = length (hd b')" using r h by (simp only:)
  qed
qed

lemma shape_inBounds: "map length b' = map length b \<Longrightarrow> b \<noteq> [] \<Longrightarrow> inBounds b' x y = inBounds b x y"
proof -
  assume a: "map length b' = map length b" "b \<noteq> []"
  then have l: "length b' = length b" by (metis length_map)
  then have "b' \<noteq> []" using a by auto
  then have "length (hd b') = length (hd b)" using a by (cases b; cases b') auto
  then show ?thesis using l by (simp add: inBounds_def)
qed

lemma frame_cellAt:
  assumes "map (map g) b = map (map g) b'"
  shows "map_sum id g (cellAt b' x y) = map_sum id g (cellAt b x y)"
proof -
  have l: "length b' = length b" using assms by (metis length_map)
  have r: "map g (b' ! j) = map g (b ! j)" if "j < length b" for j
    using assms l that by (metis nth_map)
  have n: "length (b' ! j) = length (b ! j)" if "j < length b" for j
    using r[OF that] by (metis length_map)
  have "g (b' ! j ! i) = g (b ! j ! i)" if "j < length b" "i < length (b ! j)" for i j
    using r[OF that(1)] that n by (metis nth_map)
  then show ?thesis using l n by (auto simp: cellAt_def)
qed

lemma cellAt_InrD:
  assumes "cellAt b x y = Inr c"
  shows "0 \<le> y" "y < int (length b)" "0 \<le> x" "x < int (length (b ! nat y))"
    "c = b ! nat y ! nat x"
proof -
  show y: "0 \<le> y" "y < int (length b)"
    using assms unfolding cellAt_def by (auto split: if_splits)
  then have *: "(if 0 \<le> x \<and> x < int (length (b ! nat y))
              then Inr (b ! nat y ! nat x) else Inl TypeError) = Inr c"
    using assms unfolding cellAt_def by simp
  then show "0 \<le> x" "x < int (length (b ! nat y))" "c = b ! nat y ! nat x"
    by (auto split: if_splits)
qed

lemma cellAt_updCell:
  assumes "cellAt b x y = Inr c"
  shows "cellAt (updCell b x y f) x' y' = (if x' = x \<and> y' = y then Inr (f c) else cellAt b x' y')"
proof -
  note d = cellAt_InrD [OF assms]
  have ny: "nat y < length b" and nx: "nat x < length (b ! nat y)" using d by auto
  have len: "length (updCell b x y f) = length b" by (simp add: updCell_def)
  have row: "updCell b x y f ! nat y = (b ! nat y)[nat x := f c]"
    using ny d(5) by (simp add: updCell_def)
  have other: "updCell b x y f ! j = b ! j" if "j \<noteq> nat y" for j
    using that by (simp add: updCell_def)
  show ?thesis
  proof (cases "0 \<le> y' \<and> y' < int (length b)")
    case False
    then have "y' \<noteq> y" using d by auto
    moreover have "cellAt (updCell b x y f) x' y' = Inl TypeError"
      using False unfolding cellAt_def len by (simp only: if_False)
    moreover have "cellAt b x' y' = Inl TypeError"
      using False unfolding cellAt_def by (simp only: if_False)
    ultimately show ?thesis by simp
  next
    case y': True
    show ?thesis
    proof (cases "y' = y")
      case False
      then have "nat y' \<noteq> nat y" using d y' by auto
      then have "updCell b x y f ! nat y' = b ! nat y'" by (rule other)
      then show ?thesis using False by (simp add: cellAt_def len)
    next
      case True
      have c1: "cellAt (updCell b x y f) x' y =
          (if 0 \<le> x' \<and> x' < int (length (b ! nat y))
           then Inr ((b ! nat y)[nat x := f c] ! nat x') else Inl TypeError)"
        using d(1,2) by (simp add: cellAt_def len row)
      have c2: "cellAt b x' y =
          (if 0 \<le> x' \<and> x' < int (length (b ! nat y))
           then Inr (b ! nat y ! nat x') else Inl TypeError)"
        using d(1,2) by (simp add: cellAt_def)
      show ?thesis
      proof (cases "x' = x")
        case True
        have "cellAt (updCell b x y f) x' y = Inr (f c)"
          unfolding c1 using True d(3,4) nx by simp
        then show ?thesis using True \<open>y' = y\<close> by simp
      next
        case False
        then have "0 \<le> x' \<Longrightarrow> nat x' \<noteq> nat x" using d(3) by auto
        then have "0 \<le> x' \<Longrightarrow> (b ! nat y)[nat x := f c] ! nat x' = b ! nat y ! nat x'"
          by simp
        then show ?thesis using False \<open>y' = y\<close> by (simp add: c1 c2)
      qed
    qed
  qed
qed

section \<open>Mine placement: the rejection-sampling loop\<close>

lemma neighbourOffsets_eq:
  "neighbourOffsets = [(-1, -1), (0, -1), (1, -1), (-1, 0), (1, 0), (-1, 1), (0, 1), (1, 1)]"
  by (simp add: neighbourOffsets_def)

lemma cells_iff: "c \<in> set (concat b) \<longleftrightarrow> (\<exists>x y. cellAt b x y = Inr c)"
proof
  assume "c \<in> set (concat b)"
  then obtain row where r: "row \<in> set b" "c \<in> set row" by auto
  then obtain j where j: "j < length b" "row = b ! j" by (auto simp: in_set_conv_nth)
  from r(2) obtain i where i: "i < length row" "c = row ! i" by (auto simp: in_set_conv_nth)
  have "cellAt b (int i) (int j) = Inr c" using i j by (simp add: cellAt_def)
  then show "\<exists>x y. cellAt b x y = Inr c" by blast
next
  assume "\<exists>x y. cellAt b x y = Inr c"
  then obtain x y where xy: "cellAt b x y = Inr c" by blast
  note d = cellAt_InrD [OF xy]
  have "nat y < length b" "nat x < length (b ! nat y)" using d by auto
  then have "b ! nat y \<in> set b" "b ! nat y ! nat x \<in> set (b ! nat y)" by simp_all
  then show "c \<in> set (concat b)" using d(5) by auto
qed

lemma length_filter_update:
  assumes "i < length xs"
  shows "length (filter P (xs[i := v])) + (if P (xs ! i) then 1 else 0)
       = length (filter P xs) + (if P v then 1 else 0)"
proof -
  have a: "xs = take i xs @ xs ! i # drop (Suc i) xs" using assms by (rule id_take_nth_drop)
  have b: "xs[i := v] = take i xs @ v # drop (Suc i) xs" using assms by (rule upd_conv_take_nth_drop)
  have "length (filter P xs) = length (filter P (take i xs @ xs ! i # drop (Suc i) xs))"
    using a by simp
  then show ?thesis unfolding b by simp
qed

lemma length_filter_concat_update:
  assumes "j < length b"
  shows "length (filter P (concat (b[j := r]))) + length (filter P (b ! j))
       = length (filter P (concat b)) + length (filter P r)"
proof -
  have a: "b = take j b @ b ! j # drop (Suc j) b" using assms by (rule id_take_nth_drop)
  have u: "b[j := r] = take j b @ r # drop (Suc j) b" using assms by (rule upd_conv_take_nth_drop)
  have "length (filter P (concat b)) = length (filter P (concat (take j b @ b ! j # drop (Suc j) b)))"
    using a by simp
  then show ?thesis unfolding u by simp
qed

lemma mineCount_setMine:
  assumes "cellAt b x y = Inr c" "\<not> isMine c"
  shows "mineCount (setMine b x y) = Suc (mineCount b)"
proof -
  note d = cellAt_InrD [OF assms(1)]
  have ny: "nat y < length b" and nx: "nat x < length (b ! nat y)" using d by auto
  let ?r = "(b ! nat y)[nat x := (b ! nat y ! nat x)\<lparr>isMine := True\<rparr>]"
  have 1: "length (filter isMine ?r) = Suc (length (filter isMine (b ! nat y)))"
    using length_filter_update [OF nx, of isMine "(b ! nat y ! nat x)\<lparr>isMine := True\<rparr>"]
      assms(2) d(5) by simp
  have 2: "length (filter isMine (concat (b[nat y := ?r]))) + length (filter isMine (b ! nat y))
       = length (filter isMine (concat b)) + length (filter isMine ?r)"
    using ny by (rule length_filter_concat_update)
  show ?thesis unfolding mineCount_def setMine_def updCell_def using 1 2 by simp
qed

lemma mineAt_setMine:
  assumes "cellAt b x y = Inr c"
  shows "mineAt (setMine b x y) x' y' \<longleftrightarrow> (x' = x \<and> y' = y) \<or> mineAt b x' y'"
  unfolding mineAt_def setMine_def cellAt_updCell [OF assms] by auto

lemma frame_setMine: "map (map eraseMine) (setMine b x y) = map (map eraseMine) b"
  unfolding setMine_def by (rule map_map_updCell) (simp add: eraseMine_def)

lemma frame_setAdjacent: "map (map eraseAdjacent) (setAdjacent b x y n) = map (map eraseAdjacent) b"
  unfolding setAdjacent_def by (rule map_map_updCell) (simp add: eraseAdjacent_def)

lemma frame_setRevealed: "map (map eraseRevealed) (setRevealed b x y) = map (map eraseRevealed) b"
  unfolding setRevealed_def by (rule map_map_updCell) (simp add: eraseRevealed_def)

lemma placeLoop_inv:
  assumes "placeLoop picks k b mines initial placed = Some r"
  shows "\<forall>b1. r = Inr b1 \<longrightarrow> placeInv b mines initial placed b1"
proof (rule placeLoop.raw_induct
    [where P = "\<lambda>picks k b mines initial placed r.
       \<forall>b1. r = Inr b1 \<longrightarrow> placeInv b mines initial placed b1", OF _ assms], goal_cases)
  case (1 f picks k b mines initial placed r)
  show ?case
  proof (intro allI impI)
    fix b1 assume r: "r = Inr b1"
    show "placeInv b mines initial placed b1"
    proof (cases "placed < mines")
      case False
      with 1(2) r have "b1 = b" by simp
      then show ?thesis using False by (simp add: placeInv_def)
    next
      case lt: True
      obtain x y where p: "picks k = (x, y)" by (cases "picks k")
      from 1(2) lt have body:
        "(if x = fst initial \<and> y = snd initial
          then f picks (Suc k) b mines initial placed
          else (case cellAt b x y of
                  Inl e \<Rightarrow> Some (Inl e)
                | Inr c \<Rightarrow>
                    if isMine c
                    then f picks (Suc k) b mines initial placed
                    else f picks (Suc k) (setMine b x y) mines initial (placed + 1))) = Some r"
        by (simp add: p)
      show ?thesis
      proof (cases "x = fst initial \<and> y = snd initial")
        case True
        with body have "f picks (Suc k) b mines initial placed = Some r" by simp
        from 1(1) [OF this] r show ?thesis by blast
      next
        case ne: False
        from body ne obtain c where c: "cellAt b x y = Inr c"
          using r by (cases "cellAt b x y") auto
        show ?thesis
        proof (cases "isMine c")
          case True
          with body ne c have "f picks (Suc k) b mines initial placed = Some r" by simp
          from 1(1) [OF this] r show ?thesis by blast
        next
          case False
          with body ne c
          have "f picks (Suc k) (setMine b x y) mines initial (placed + 1) = Some r" by simp
          from 1(1) [OF this] r have i: "placeInv (setMine b x y) mines initial (placed + 1) b1"
            by blast
          have m: "mineCount (setMine b x y) = Suc (mineCount b)"
            using c False by (rule mineCount_setMine)
          note ma = mineAt_setMine [OF c]
          show ?thesis unfolding placeInv_def
          proof (intro conjI impI allI)
            show "map (map eraseMine) b1 = map (map eraseMine) b"
              using i frame_setMine [of b x y] by (simp add: placeInv_def)
            show "int (mineCount b1) = int (mineCount b) + (mines - placed)"
              using i lt m by (simp add: placeInv_def)
            show "mineAt b1 (fst initial) (snd initial) = mineAt b (fst initial) (snd initial)"
              using i ne ma by (auto simp add: placeInv_def)
            show "mineAt b1 x' y'" if "mineAt b x' y'" for x' y'
              using i that ma by (simp add: placeInv_def)
          qed
        qed
      qed
    qed
  qed
qed

section \<open>Mine placement: the adjacency pass\<close>

lemma frame_mineAt:
  assumes "map (map g) b' = map (map g) b" "\<And>c. isMine (g c) = isMine c"
  shows "mineAt b' x y = mineAt b x y"
proof -
  have e: "map_sum id g (cellAt b' x y) = map_sum id g (cellAt b x y)"
    using assms(1) by (metis frame_cellAt)
  show ?thesis
  proof (cases "cellAt b x y")
    case (Inl e1)
    with e have "\<exists>e2. cellAt b' x y = Inl e2" by (cases "cellAt b' x y") auto
    then show ?thesis using Inl by (auto simp: mineAt_def)
  next
    case (Inr c)
    with e obtain c' where c': "cellAt b' x y = Inr c'" "g c' = g c"
      by (cases "cellAt b' x y") auto
    then have "isMine c' = isMine c" using assms(2) by metis
    then show ?thesis using Inr c' by (simp add: mineAt_def)
  qed
qed

lemma frame_Inr:
  assumes "map (map g) b' = map (map g) b" "cellAt b x y = Inr c"
  shows "\<exists>c'. cellAt b' x y = Inr c' \<and> g c' = g c"
proof -
  have e: "map_sum id g (cellAt b' x y) = map_sum id g (cellAt b x y)"
    using assms(1) by (metis frame_cellAt)
  then show ?thesis using assms(2) by (cases "cellAt b' x y") auto
qed

lemma countLoop_frame:
  assumes "map (map g) b' = map (map g) b" "\<And>c. isMine (g c) = isMine c"
  shows "countLoop b' rows cols x y ds n = countLoop b rows cols x y ds n"
proof (induction ds arbitrary: n)
  case Nil
  show ?case by simp
next
  case (Cons d ds)
  obtain dx dy where d: "d = (dx, dy)" by (cases d)
  have e: "map_sum id g (cellAt b' (x + dx) (y + dy)) = map_sum id g (cellAt b (x + dx) (y + dy))"
    using assms(1) by (metis frame_cellAt)
  show ?case
  proof (cases "cellAt b (x + dx) (y + dy)")
    case (Inl e1)
    with e obtain e2 where "cellAt b' (x + dx) (y + dy) = Inl e2"
      by (cases "cellAt b' (x + dx) (y + dy)") auto
    moreover have "e2 = e1" by (cases e1; cases e2) simp
    ultimately show ?thesis using Inl Cons by (simp add: d Let_def)
  next
    case (Inr c)
    with e obtain c' where c': "cellAt b' (x + dx) (y + dy) = Inr c'" "g c' = g c"
      by (cases "cellAt b' (x + dx) (y + dy)") auto
    then have "isMine c' = isMine c" using assms(2) by metis
    then show ?thesis using Inr c' Cons by (simp add: d Let_def)
  qed
qed

lemma countLoop_rect:
  assumes "rect b" "rows = int (length b)" "cols = int (length (hd b))"
  shows "countLoop b rows cols x y ds n
       = Inr (n + int (length (filter (\<lambda>(dx, dy). mineAt b (x + dx) (y + dy)) ds)))"
proof (induction ds arbitrary: n)
  case Nil
  show ?case by simp
next
  case (Cons d ds)
  obtain dx dy where d: "d = (dx, dy)" by (cases d)
  show ?case
  proof (cases "inBounds b (x + dx) (y + dy)")
    case True
    then have c: "cellAt b (x + dx) (y + dy) = Inr (b ! nat (y + dy) ! nat (x + dx))"
      using assms(1) by (simp add: rect_cellAt)
    have g: "y + dy \<ge> 0 \<and> y + dy < rows \<and> x + dx \<ge> 0 \<and> x + dx < cols"
      using True assms(2,3) by (simp add: inBounds_def)
    show ?thesis using g c Cons by (simp add: d Let_def mineAt_def)
  next
    case False
    then have c: "cellAt b (x + dx) (y + dy) = Inl TypeError"
      using assms(1) by (simp add: rect_cellAt)
    have g: "\<not> (y + dy \<ge> 0 \<and> y + dy < rows \<and> x + dx \<ge> 0 \<and> x + dx < cols)"
      using False assms(2,3) by (auto simp add: inBounds_def)
    show ?thesis using g c Cons by (simp add: d Let_def mineAt_def)
  qed
qed

lemma countLoop_mineNeighbours:
  assumes "rect b" "rows = int (length b)" "cols = int (length (hd b))"
  shows "countLoop b rows cols x y neighbourOffsets 0 = Inr (mineNeighbours b x y)"
  unfolding countLoop_rect [OF assms] neighbourOffsets_eq mineNeighbours_def
  by (simp add: algebra_simps)

lemma adjacentLoop_result:
  assumes "adjacentLoop b rows cols cs = Inr b2"
  shows "map (map eraseAdjacent) b2 = map (map eraseAdjacent) b
       \<and> (\<forall>x y c. cellAt b x y = Inr c \<longrightarrow>
            cellAt b2 x y = Inr (if (x, y) \<in> set cs \<and> \<not> isMine c
                                then c\<lparr>adjacent := countAt b rows cols x y\<rparr> else c))"
  using assms
proof (induction cs arbitrary: b)
  case Nil
  then show ?case by simp
next
  case (Cons p cs)
  obtain x y where p: "p = (x, y)" by (cases p)
  from Cons.prems obtain c0 where c0: "cellAt b x y = Inr c0"
    unfolding p by (cases "cellAt b x y") auto
  show ?case
  proof (cases "isMine c0")
    case True
    with Cons.prems c0 have "adjacentLoop b rows cols cs = Inr b2" by (simp add: p)
    from Cons.IH [OF this] have ih1: "map (map eraseAdjacent) b2 = map (map eraseAdjacent) b"
      and ih2: "\<And>x y c. cellAt b x y = Inr c \<Longrightarrow>
            cellAt b2 x y = Inr (if (x, y) \<in> set cs \<and> \<not> isMine c
                                then c\<lparr>adjacent := countAt b rows cols x y\<rparr> else c)"
      by blast+
    show ?thesis
    proof (intro conjI allI impI)
      show "map (map eraseAdjacent) b2 = map (map eraseAdjacent) b" by (rule ih1)
      fix x' y' c assume a: "cellAt b x' y' = Inr c"
      show "cellAt b2 x' y' = Inr (if (x', y') \<in> set (p # cs) \<and> \<not> isMine c
                                then c\<lparr>adjacent := countAt b rows cols x' y'\<rparr> else c)"
      proof (cases "x' = x \<and> y' = y")
        case True
        then have "c = c0" using a c0 by simp
        then show ?thesis using ih2 [OF a] \<open>isMine c0\<close> by simp
      next
        case False
        then show ?thesis using ih2 [OF a] by (auto simp: p)
      qed
    qed
  next
    case False
    from Cons.prems c0 False obtain n where n: "countLoop b rows cols x y neighbourOffsets 0 = Inr n"
      unfolding p by (cases "countLoop b rows cols x y neighbourOffsets 0") auto
    let ?b' = "setAdjacent b x y n"
    from Cons.prems c0 False n have "adjacentLoop ?b' rows cols cs = Inr b2" by (simp add: p)
    from Cons.IH [OF this] have ih1: "map (map eraseAdjacent) b2 = map (map eraseAdjacent) ?b'"
      and ih2: "\<And>x y c. cellAt ?b' x y = Inr c \<Longrightarrow>
            cellAt b2 x y = Inr (if (x, y) \<in> set cs \<and> \<not> isMine c
                                then c\<lparr>adjacent := countAt ?b' rows cols x y\<rparr> else c)"
      by blast+
    have f: "map (map eraseAdjacent) ?b' = map (map eraseAdjacent) b" by (rule frame_setAdjacent)
    have cnt: "countAt ?b' rows cols x' y' = countAt b rows cols x' y'" for x' y'
      unfolding countAt_def using countLoop_frame [OF f]
      by (simp add: eraseAdjacent_def)
    have nn: "countAt b rows cols x y = n" by (simp add: countAt_def n)
    show ?thesis
    proof (intro conjI allI impI)
      show "map (map eraseAdjacent) b2 = map (map eraseAdjacent) b" using ih1 f by simp
      fix x' y' c assume a: "cellAt b x' y' = Inr c"
      have a': "cellAt ?b' x' y' = Inr (if x' = x \<and> y' = y then c0\<lparr>adjacent := n\<rparr> else c)"
        unfolding setAdjacent_def cellAt_updCell [OF c0] using a by simp
      show "cellAt b2 x' y' = Inr (if (x', y') \<in> set (p # cs) \<and> \<not> isMine c
                                then c\<lparr>adjacent := countAt b rows cols x' y'\<rparr> else c)"
      proof (cases "x' = x \<and> y' = y")
        case True
        then have "c = c0" using a c0 by simp
        then show ?thesis using ih2 [OF a'] True False nn by (simp add: cnt p)
      next
        case ne: False
        then show ?thesis using ih2 [OF a'] by (auto simp: cnt p)
      qed
    qed
  qed
qed

lemma gridCoords_iff:
  "(x, y) \<in> set (gridCoords rows cols) \<longleftrightarrow> 0 \<le> x \<and> x < cols \<and> 0 \<le> y \<and> y < rows"
proof
  assume "(x, y) \<in> set (gridCoords rows cols)"
  then obtain i j where "x = int i" "y = int j" "i < nat cols" "j < nat rows"
    by (auto simp: gridCoords_def)
  then show "0 \<le> x \<and> x < cols \<and> 0 \<le> y \<and> y < rows" by auto
next
  assume a: "0 \<le> x \<and> x < cols \<and> 0 \<le> y \<and> y < rows"
  then have "nat x < nat cols" "nat y < nat rows" by auto
  moreover have "(int i, int j) \<in> set (gridCoords rows cols)"
    if "i < nat cols" "j < nat rows" for i j
    using that unfolding gridCoords_def by force
  ultimately have "(int (nat x), int (nat y)) \<in> set (gridCoords rows cols)"
    by blast
  then show "(x, y) \<in> set (gridCoords rows cols)" using a by simp
qed

section \<open>Mine placement: results\<close>

lemma placeMines_split:
  assumes "placeMines picks b mines initial = Some (Inr b')"
  shows "b \<noteq> [] \<and> (\<exists>b1. placeLoop picks 0 b mines initial 0 = Some (Inr b1)
     \<and> adjacentLoop b1 (int (length b)) (int (length (hd b)))
          (gridCoords (int (length b)) (int (length (hd b)))) = Inr b')"
proof (cases b)
  case Nil
  with assms show ?thesis by (simp add: placeMines_def)
next
  case (Cons row0 rest)
  show ?thesis
  proof (cases "placeLoop picks 0 b mines initial 0")
    case None
    with assms Cons show ?thesis by (simp add: placeMines_def)
  next
    case (Some r)
    show ?thesis
    proof (cases r)
      case (Inl e)
      with assms Cons Some show ?thesis by (simp add: placeMines_def)
    next
      case (Inr b1)
      with assms Cons Some show ?thesis by (simp add: placeMines_def Let_def)
    qed
  qed
qed

lemma frame_sym: "map (map g) b' = map (map g) b \<Longrightarrow> map (map g) b = map (map g) b'"
  by simp

lemma shape_hd:
  "map length (b' :: 'a list list) = map length (b :: 'a list list) \<Longrightarrow>
     length (hd b') = length (hd b)"
  by (cases b; cases b') auto

lemma frame_count:
  assumes "map (map g) b' = map (map g) b" "\<And>c. P (g c) = P c"
  shows "length (filter P (concat b')) = length (filter P (concat b))"
proof -
  have m: "map g (concat b') = map g (concat b)"
    using assms(1) by (simp add: map_concat)
  have "length (filter P xs) = length (filter P (map g xs))" for xs
    by (induction xs) (simp_all add: assms(2))
  then show ?thesis using m by metis
qed

lemma eraseMine_fields:
  "isRevealed (eraseMine c) = isRevealed c" "isFlagged (eraseMine c) = isFlagged c"
  "adjacent (eraseMine c) = adjacent c" "cell_x (eraseMine c) = cell_x c"
  "cell_y (eraseMine c) = cell_y c"
  by (simp_all add: eraseMine_def)

lemma eraseAdjacent_fields:
  "isRevealed (eraseAdjacent c) = isRevealed c" "isFlagged (eraseAdjacent c) = isFlagged c"
  "isMine (eraseAdjacent c) = isMine c" "cell_x (eraseAdjacent c) = cell_x c"
  "cell_y (eraseAdjacent c) = cell_y c"
  by (simp_all add: eraseAdjacent_def)

lemma mineNeighbours_frame:
  assumes "map (map g) b' = map (map g) b" "\<And>c. isMine (g c) = isMine c"
  shows "mineNeighbours b' x y = mineNeighbours b x y"
  unfolding mineNeighbours_def using frame_mineAt [OF assms] by simp

lemma placeMines_adjacent:
  assumes "rect b" "placeMines picks b mines initial = Some (Inr b')"
    "cellAt b' x y = Inr c" "\<not> isMine c"
  shows "adjacent c = mineNeighbours b' x y"
proof -
  from placeMines_split [OF assms(2)] obtain b1 where
    pl: "placeLoop picks 0 b mines initial 0 = Some (Inr b1)" and
    ad: "adjacentLoop b1 (int (length b)) (int (length (hd b)))
          (gridCoords (int (length b)) (int (length (hd b)))) = Inr b'"
    by blast
  from placeLoop_inv [OF pl] have f1: "map (map eraseMine) b1 = map (map eraseMine) b"
    by (simp add: placeInv_def)
  then have sh: "map length b1 = map length b" by (metis frame_length)
  have r1: "rect b1" using sh assms(1) by (rule shape_rect)
  have l1: "length b1 = length b" using sh by (metis length_map)
  have h1: "length (hd b1) = length (hd b)" using sh by (rule shape_hd)
  note res = adjacentLoop_result [OF ad]
  from res have f2: "map (map eraseAdjacent) b' = map (map eraseAdjacent) b1" by blast
  from frame_Inr [OF frame_sym [OF f2] assms(3)] obtain c1 where
    c1: "cellAt b1 x y = Inr c1" "eraseAdjacent c1 = eraseAdjacent c" by blast
  then have m1: "\<not> isMine c1" using assms(4) by (metis eraseAdjacent_fields(3))
  have "inBounds b1 x y" using c1(1) r1 by (metis cellAt_Inr_iff)
  then have mem: "(x, y) \<in> set (gridCoords (int (length b)) (int (length (hd b))))"
    unfolding gridCoords_iff inBounds_def l1 h1 by simp
  from res c1(1) have "cellAt b' x y =
      Inr (if (x, y) \<in> set (gridCoords (int (length b)) (int (length (hd b)))) \<and> \<not> isMine c1
           then c1\<lparr>adjacent := countAt b1 (int (length b)) (int (length (hd b))) x y\<rparr> else c1)"
    by blast
  with mem m1 assms(3) have "c = c1\<lparr>adjacent := countAt b1 (int (length b)) (int (length (hd b))) x y\<rparr>"
    by simp
  then have "adjacent c = countAt b1 (int (length b)) (int (length (hd b))) x y" by simp
  also have "\<dots> = mineNeighbours b1 x y"
    unfolding countAt_def using countLoop_mineNeighbours [OF r1, of "int (length b)" "int (length (hd b))" x y]
    by (simp add: l1 h1)
  also have "\<dots> = mineNeighbours b' x y"
    using mineNeighbours_frame [OF f2, of x y] by (simp add: eraseAdjacent_fields)
  finally show ?thesis .
qed

lemma placeMines_mines:
  assumes "placeMines picks b mines initial = Some (Inr b')"
  shows "(0 \<le> mines \<longrightarrow> int (mineCount b') = int (mineCount b) + mines)
       \<and> mineAt b' (fst initial) (snd initial) = mineAt b (fst initial) (snd initial)"
proof -
  from placeMines_split [OF assms] obtain b1 where
    pl: "placeLoop picks 0 b mines initial 0 = Some (Inr b1)" and
    ad: "adjacentLoop b1 (int (length b)) (int (length (hd b)))
          (gridCoords (int (length b)) (int (length (hd b)))) = Inr b'"
    by blast
  from placeLoop_inv [OF pl] have inv: "placeInv b mines initial 0 b1" by blast
  from adjacentLoop_result [OF ad] have f2: "map (map eraseAdjacent) b' = map (map eraseAdjacent) b1"
    by blast
  have "mineCount b' = mineCount b1" unfolding mineCount_def
    using f2 by (rule frame_count) (simp add: eraseAdjacent_fields)
  moreover have "mineAt b' (fst initial) (snd initial) = mineAt b1 (fst initial) (snd initial)"
    using f2 by (rule frame_mineAt) (simp add: eraseAdjacent_fields)
  ultimately show ?thesis using inv by (simp add: placeInv_def)
qed

lemma mineAt_mineCount: "mineAt b x y \<Longrightarrow> 0 < mineCount b"
proof -
  assume "mineAt b x y"
  then obtain c where c: "cellAt b x y = Inr c" "isMine c"
    by (cases "cellAt b x y") (auto simp: mineAt_def)
  then have "c \<in> set (concat b)" unfolding cells_iff by blast
  then have "c \<in> set (filter isMine (concat b))" using c(2) by simp
  then show ?thesis unfolding mineCount_def by (metis length_pos_if_in_set)
qed

lemma rect_empty22: "rect (createEmptyBoard 2 2)"
  by code_simp

lemma placeMines_example:
  "placeMines (\<lambda>k. (1, 1)) (createEmptyBoard 2 2) 1 (0, 0) = Some (Inr oneMineBoard)"
  by code_simp

text \<open>
  Claim C2. After \<open>placeMines\<close> returns, whatever the excluded cell and the
  random draws were, the \<open>adjacent\<close> field of every cell that is not a mine is
  the number of its neighbours on the board (up to eight) that are mines. The
  board is a rectangular grid, as the data model has it.
\<close>

theorem placeMines_adjacent_counts:
  assumes "rect b" "placeMines picks b mines initial = Some (Inr b')"
  shows "\<forall>x y c. cellAt b' x y = Inr c \<and> \<not> isMine c \<longrightarrow> adjacent c = mineNeighbours b' x y"
  using placeMines_adjacent [OF assms] by blast

theorem placeMines_adjacent_counts_witness:
  "rect (createEmptyBoard 2 2)
   \<and> placeMines (\<lambda>k. (1, 1)) (createEmptyBoard 2 2) 1 (0, 0) = Some (Inr oneMineBoard)
   \<and> cellAt oneMineBoard 0 0 = Inr (mkCell 0 0 False False False 1)
   \<and> adjacent (mkCell 0 0 False False False 1) = mineNeighbours oneMineBoard 0 0
   \<and> mineNeighbours oneMineBoard 0 0 = 1"
proof -
  have c: "cellAt oneMineBoard 0 0 = Inr (mkCell 0 0 False False False 1)" by code_simp
  have m: "\<not> isMine (mkCell 0 0 False False False 1)" by (simp add: mkCell_def)
  have "adjacent (mkCell 0 0 False False False 1) = mineNeighbours oneMineBoard 0 0"
    using placeMines_adjacent_counts [OF rect_empty22 placeMines_example] c m by blast
  moreover have "mineNeighbours oneMineBoard 0 0 = 1" by code_simp
  ultimately show ?thesis using rect_empty22 placeMines_example c by blast
qed


text \<open>
  Claim C4. On a board without mines and for a mine count that is not negative,
  whenever \<open>placeMines\<close> returns, exactly \<open>mines\<close> cells are mines and the
  excluded cell is not one of them. (The bound \<open>mines \<le> rows * cols - 1\<close> of
  the claim is what lets the loop end; the result does not depend on it.)
\<close>

theorem placeMines_count_and_excluded:
  assumes "mineCount b = 0" "0 \<le> mines" "placeMines picks b mines initial = Some (Inr b')"
  shows "int (mineCount b') = mines \<and> \<not> mineAt b' (fst initial) (snd initial)"
proof -
  have "\<not> mineAt b (fst initial) (snd initial)"
    using mineAt_mineCount [of b "fst initial" "snd initial"] assms(1) by auto
  then show ?thesis using placeMines_mines [OF assms(3)] assms(1,2) by simp
qed

theorem placeMines_count_and_excluded_witness:
  "mineCount (createEmptyBoard 2 2) = 0 \<and> (0::int) \<le> 1
   \<and> placeMines (\<lambda>k. (1, 1)) (createEmptyBoard 2 2) 1 (0, 0) = Some (Inr oneMineBoard)
   \<and> int (mineCount oneMineBoard) = 1 \<and> \<not> mineAt oneMineBoard 0 0"
proof -
  have z: "mineCount (createEmptyBoard 2 2) = 0" by code_simp
  have o: "(0::int) \<le> 1" by simp
  from placeMines_count_and_excluded [OF z o placeMines_example]
  show ?thesis using z placeMines_example by simp
qed


lemma createEmptyBoard_cells:
  "c \<in> set (concat (createEmptyBoard rows cols)) \<Longrightarrow>
     \<not> isMine c \<and> \<not> isRevealed c \<and> \<not> isFlagged c \<and> adjacent c = 0"
  unfolding createEmptyBoard_def by auto

text \<open>
  Claim C10. On the board that \<open>placeMines\<close> returns for a fresh board of
  \<open>createEmptyBoard\<close>, every mine has \<open>adjacent = 0\<close>: the adjacency pass
  skips the mines.
\<close>

theorem placeMines_mine_adjacent_zero:
  assumes "placeMines picks (createEmptyBoard rows cols) mines initial = Some (Inr b')"
  shows "\<forall>c \<in> set (concat b'). isMine c \<longrightarrow> adjacent c = 0"
proof (intro ballI impI)
  fix c assume c: "c \<in> set (concat b')" "isMine c"
  let ?b = "createEmptyBoard rows cols"
  from placeMines_split [OF assms] obtain b1 where
    pl: "placeLoop picks 0 ?b mines initial 0 = Some (Inr b1)" and
    ad: "adjacentLoop b1 (int (length ?b)) (int (length (hd ?b)))
          (gridCoords (int (length ?b)) (int (length (hd ?b)))) = Inr b'"
    by blast
  from placeLoop_inv [OF pl] have f1: "map (map eraseMine) b1 = map (map eraseMine) ?b"
    by (simp add: placeInv_def)
  note res = adjacentLoop_result [OF ad]
  from res have f2: "map (map eraseAdjacent) b' = map (map eraseAdjacent) b1" by blast
  from c(1) obtain x y where xy: "cellAt b' x y = Inr c" unfolding cells_iff by blast
  from frame_Inr [OF frame_sym [OF f2] xy] obtain c1 where
    c1: "cellAt b1 x y = Inr c1" "eraseAdjacent c1 = eraseAdjacent c" by blast
  then have m1: "isMine c1" using c(2) by (metis eraseAdjacent_fields(3))
  from res c1(1) m1 have "cellAt b' x y = Inr c1" by simp
  then have cc: "c = c1" using xy by simp
  from frame_Inr [OF frame_sym [OF f1] c1(1)] obtain c0 where
    c0: "cellAt ?b x y = Inr c0" "eraseMine c0 = eraseMine c1" by blast
  then have "c0 \<in> set (concat ?b)" unfolding cells_iff by blast
  then have "adjacent c0 = 0" using createEmptyBoard_cells by blast
  then have "adjacent c1 = 0" using c0(2) by (metis eraseMine_fields(3))
  then show "adjacent c = 0" using cc by simp
qed

theorem placeMines_mine_adjacent_zero_witness:
  "placeMines (\<lambda>k. (1, 1)) (createEmptyBoard 2 2) 1 (0, 0) = Some (Inr oneMineBoard)
   \<and> mkCell 1 1 True False False 0 \<in> set (concat oneMineBoard)
   \<and> isMine (mkCell 1 1 True False False 0)
   \<and> adjacent (mkCell 1 1 True False False 0) = 0"
proof -
  have i: "mkCell 1 1 True False False 0 \<in> set (concat oneMineBoard)"
    by (simp add: oneMineBoard_def)
  have m: "isMine (mkCell 1 1 True False False 0)" by (simp add: mkCell_def)
  from placeMines_mine_adjacent_zero [OF placeMines_example] i m
  have "adjacent (mkCell 1 1 True False False 0) = 0" by blast
  then show ?thesis using placeMines_example i m by blast
qed

section \<open>Mine placement: termination\<close>

lemma finite_boardCells: "finite (boardCells b)"
  by (simp add: boardCells_def)

lemma finite_freeCells: "finite (freeCells b initial)"
  unfolding freeCells_def using finite_boardCells [of b] by simp

lemma boardCells_rect: "rect b \<Longrightarrow> (x, y) \<in> boardCells b \<longleftrightarrow> inBounds b x y"
  unfolding boardCells_iff by (simp add: rect_cellAt)

lemma freeCells_iff:
  assumes "cellAt b x y = Inr c"
  shows "(x, y) \<in> freeCells b initial \<longleftrightarrow> \<not> isMine c \<and> (x, y) \<noteq> initial"
proof -
  have "(x, y) \<in> boardCells b" unfolding boardCells_iff using assms by simp
  then show ?thesis by (simp add: freeCells_def mineAt_def assms)
qed

lemma freeCells_setMine:
  assumes "cellAt b x y = Inr c"
  shows "freeCells (setMine b x y) initial = freeCells b initial - {(x, y)}"
proof -
  have bc: "boardCells (setMine b x y) = boardCells b"
    unfolding setMine_def by (rule boardCells_updCell)
  show ?thesis unfolding freeCells_def bc mineAt_setMine [OF assms] by auto
qed

lemma card_freeCells_setMine:
  assumes "cellAt b x y = Inr c" "\<not> isMine c" "(x, y) \<noteq> initial"
  shows "int (card (freeCells (setMine b x y) initial)) = int (card (freeCells b initial)) - 1"
proof -
  have m: "(x, y) \<in> freeCells b initial" using assms by (simp add: freeCells_iff)
  then have "card (freeCells b initial) > 0" using finite_freeCells [of b initial]
    by (metis card_gt_0_iff empty_iff)
  moreover have "card (freeCells b initial - {(x, y)}) = card (freeCells b initial) - 1"
    using m finite_freeCells [of b initial] by simp
  ultimately show ?thesis unfolding freeCells_setMine [OF assms(1)] by simp
qed

lemma rect_setMine: "rect b \<Longrightarrow> rect (setMine b x y)"
  using frame_setMine [of b x y] by (metis frame_length shape_rect)

lemma inBounds_setMine: "rect b \<Longrightarrow> inBounds (setMine b x y) x' y' = inBounds b x' y'"
proof -
  assume r: "rect b"
  have "map length (setMine b x y) = map length b"
    using frame_setMine [of b x y] by (metis frame_length)
  moreover have "b \<noteq> []" using r by (simp add: rect_def)
  ultimately show ?thesis by (rule shape_inBounds)
qed

lemma picksInRange_setMine: "rect b \<Longrightarrow> picksInRange (setMine b x y) picks = picksInRange b picks"
  by (simp add: picksInRange_def inBounds_setMine)

lemma fairPicks_setMine: "fairPicks (setMine b x y) picks = fairPicks b picks"
  by (simp add: fairPicks_def setMine_def boardCells_updCell)

text \<open>One iteration of the loop, by the kind of the pick.\<close>

lemma placeLoop_done:
  "\<not> placed < mines \<Longrightarrow> placeLoop picks k b mines initial placed = Some (Inr b)"
  by (subst placeLoop.simps) simp

lemma placeLoop_reject:
  assumes "placed < mines" "picks k = (x, y)" "cellAt b x y = Inr c"
    "(x, y) \<notin> freeCells b initial"
  shows "placeLoop picks k b mines initial placed = placeLoop picks (Suc k) b mines initial placed"
proof -
  have "(x = fst initial \<and> y = snd initial) \<or> isMine c"
    using assms(4) unfolding freeCells_iff [OF assms(3)] by (cases initial) auto
  then show ?thesis using assms(1,2,3) by (subst placeLoop.simps) auto
qed

lemma placeLoop_accept:
  assumes "placed < mines" "picks k = (x, y)" "cellAt b x y = Inr c"
    "(x, y) \<in> freeCells b initial"
  shows "placeLoop picks k b mines initial placed
       = placeLoop picks (Suc k) (setMine b x y) mines initial (placed + 1)"
proof -
  have "\<not> (x = fst initial \<and> y = snd initial)" "\<not> isMine c"
    using assms(4) unfolding freeCells_iff [OF assms(3)] by (cases initial; auto)+
  then show ?thesis using assms(1,2,3) by (subst placeLoop.simps) auto
qed

lemma picksInRange_cell:
  assumes "rect b" "picksInRange b picks" "picks k = (x, y)"
  shows "\<exists>c. cellAt b x y = Inr c"
proof -
  have "inBounds b x y" using assms(2,3) unfolding picksInRange_def by (metis fst_conv snd_conv)
  then show ?thesis using assms(1) by (simp add: rect_cellAt)
qed

lemma placeLoop_next_accept:
  assumes "rect b" "picksInRange b picks" "placed < mines"
  shows "picks m \<in> freeCells b initial \<Longrightarrow> k \<le> m \<Longrightarrow>
     \<exists>m' x y c. cellAt b x y = Inr c \<and> (x, y) \<in> freeCells b initial
        \<and> placeLoop picks k b mines initial placed
          = placeLoop picks (Suc m') (setMine b x y) mines initial (placed + 1)"
proof (induction "m - k" arbitrary: k)
  case 0
  then have km: "k = m" by simp
  obtain x y where p: "picks k = (x, y)" by (cases "picks k")
  from picksInRange_cell [where picks = picks and k = k, OF assms(1,2) p] obtain c where c: "cellAt b x y = Inr c" by blast
  have f: "(x, y) \<in> freeCells b initial" using 0(2) p km by simp
  from placeLoop_accept [where picks = picks and k = k, OF assms(3) p c f] c f show ?case by blast
next
  case (Suc n)
  obtain x y where p: "picks k = (x, y)" by (cases "picks k")
  from picksInRange_cell [where picks = picks and k = k, OF assms(1,2) p] obtain c where c: "cellAt b x y = Inr c" by blast
  show ?case
  proof (cases "(x, y) \<in> freeCells b initial")
    case True
    from placeLoop_accept [where picks = picks and k = k, OF assms(3) p c True] c True show ?thesis by blast
  next
    case False
    have n: "n = m - Suc k" "Suc k \<le> m" using Suc.hyps(2) Suc.prems(2) by auto
    from Suc.hyps(1) [OF n(1) Suc.prems(1) n(2)]
    show ?thesis unfolding placeLoop_reject [where picks = picks and k = k, OF assms(3) p c False] .
  qed
qed

lemma placeLoop_terminates:
  "rect b \<Longrightarrow> picksInRange b picks \<Longrightarrow> fairPicks b picks \<Longrightarrow>
   mines - placed \<le> int (card (freeCells b initial)) \<Longrightarrow>
   \<exists>b1. placeLoop picks k b mines initial placed = Some (Inr b1)"
proof (induction "nat (mines - placed)" arbitrary: k b placed)
  case 0
  then have "\<not> placed < mines" by simp
  then show ?case by (simp add: placeLoop_done)
next
  case (Suc n)
  have lt: "placed < mines" using Suc.hyps(2) by simp
  then have "0 < card (freeCells b initial)" using Suc.prems(4) by simp
  then obtain p where p: "p \<in> freeCells b initial"
    by (metis card_gt_0_iff all_not_in_conv)
  then have "p \<in> boardCells b" by (simp add: freeCells_def)
  then obtain m where m: "k \<le> m" "picks m = p"
    using Suc.prems(3) unfolding fairPicks_def by blast
  have pm: "picks m \<in> freeCells b initial" using m(2) p by simp
  from placeLoop_next_accept [OF Suc.prems(1,2) lt pm m(1)] obtain m' x y c where
    c: "cellAt b x y = Inr c" and f: "(x, y) \<in> freeCells b initial"
    and e: "placeLoop picks k b mines initial placed
          = placeLoop picks (Suc m') (setMine b x y) mines initial (placed + 1)"
    by blast
  have nm: "\<not> isMine c" "(x, y) \<noteq> initial" using f unfolding freeCells_iff [OF c] by simp_all
  have n: "n = nat (mines - (placed + 1))" using Suc.hyps(2) by simp
  have cd: "mines - (placed + 1) \<le> int (card (freeCells (setMine b x y) initial))"
    unfolding card_freeCells_setMine [OF c nm] using Suc.prems(4) by simp
  have "\<exists>b1. placeLoop picks (Suc m') (setMine b x y) mines initial (placed + 1) = Some (Inr b1)"
    using Suc.hyps(1) [OF n rect_setMine [OF Suc.prems(1)] _ _ cd]
      Suc.prems(2,3) Suc.prems(1)
    by (simp add: picksInRange_setMine fairPicks_setMine)
  then show ?case unfolding e .
qed

lemma placeLoop_diverges:
  assumes "placeLoop picks k b mines initial placed = Some r"
  shows "\<not> (rect b \<and> picksInRange b picks \<and> int (card (freeCells b initial)) < mines - placed)"
proof (rule placeLoop.raw_induct
    [where P = "\<lambda>picks k b mines initial placed r.
       \<not> (rect b \<and> picksInRange b picks \<and> int (card (freeCells b initial)) < mines - placed)",
     OF _ assms], goal_cases)
  case (1 f picks k b mines initial placed r)
  show ?case
  proof
    assume a: "rect b \<and> picksInRange b picks \<and> int (card (freeCells b initial)) < mines - placed"
    then have lt: "placed < mines" by linarith
    obtain x y where p: "picks k = (x, y)" by (cases "picks k")
    from a have "rect b" "picksInRange b picks" by simp_all
    from picksInRange_cell [where picks = picks and k = k, OF this p]
    obtain c where c: "cellAt b x y = Inr c" by blast
    from lt c 1(2) have body:
      "(if x = fst initial \<and> y = snd initial
        then f picks (Suc k) b mines initial placed
        else if isMine c
             then f picks (Suc k) b mines initial placed
             else f picks (Suc k) (setMine b x y) mines initial (placed + 1)) = Some r"
      by (auto simp add: p split: if_splits)
    show False
    proof (cases "(x = fst initial \<and> y = snd initial) \<or> isMine c")
      case True
      then have "f picks (Suc k) b mines initial placed = Some r"
        using body by (auto split: if_splits)
      from 1(1) [OF this] a show False by blast
    next
      case False
      then have s: "f picks (Suc k) (setMine b x y) mines initial (placed + 1) = Some r"
        using body by (auto split: if_splits)
      have nm: "\<not> isMine c" "(x, y) \<noteq> initial" using False by (cases initial; auto)+
      have "int (card (freeCells (setMine b x y) initial)) < mines - (placed + 1)"
        unfolding card_freeCells_setMine [OF c nm] using a by simp
      moreover have "rect (setMine b x y)" using a by (simp add: rect_setMine)
      moreover have "picksInRange (setMine b x y) picks" using a by (simp add: picksInRange_setMine)
      ultimately show False using 1(1) [OF s] by blast
    qed
  qed
qed

lemma rect_setAdjacent: "rect b \<Longrightarrow> rect (setAdjacent b x y n)"
  using frame_setAdjacent [of b x y n] by (metis frame_length shape_rect)

lemma dims_setAdjacent:
  "length (setAdjacent b x y n) = length b"
  "length (hd (setAdjacent b x y n)) = length (hd b)"
proof -
  have s: "map length (setAdjacent b x y n) = map length b"
    using frame_setAdjacent [of b x y n] by (metis frame_length)
  show "length (setAdjacent b x y n) = length b" using s by (metis length_map)
  show "length (hd (setAdjacent b x y n)) = length (hd b)" using s by (rule shape_hd)
qed

lemma adjacentLoop_total:
  "rect b \<Longrightarrow> rows = int (length b) \<Longrightarrow> cols = int (length (hd b)) \<Longrightarrow>
   (\<forall>p \<in> set cs. inBounds b (fst p) (snd p)) \<Longrightarrow>
   \<exists>b2. adjacentLoop b rows cols cs = Inr b2"
proof (induction cs arbitrary: b)
  case Nil
  show ?case by simp
next
  case (Cons p cs)
  obtain x y where p: "p = (x, y)" by (cases p)
  have "inBounds b x y" using Cons.prems(4) p by simp
  then have c: "cellAt b x y = Inr (b ! nat y ! nat x)" using Cons.prems(1) by (simp add: rect_cellAt)
  have rest: "\<forall>p \<in> set cs. inBounds b (fst p) (snd p)" using Cons.prems(4) by simp
  show ?case
  proof (cases "isMine (b ! nat y ! nat x)")
    case True
    then show ?thesis using Cons.IH [OF Cons.prems(1,2,3) rest] c by (simp add: p)
  next
    case False
    let ?n = "mineNeighbours b x y"
    have n: "countLoop b rows cols x y neighbourOffsets 0 = Inr ?n"
      by (rule countLoop_mineNeighbours [OF Cons.prems(1,2,3)])
    have r: "rect (setAdjacent b x y ?n)" using Cons.prems(1) by (rule rect_setAdjacent)
    have d: "rows = int (length (setAdjacent b x y ?n))"
      "cols = int (length (hd (setAdjacent b x y ?n)))"
      using Cons.prems(2,3) by (simp_all add: dims_setAdjacent)
    have rest': "\<forall>p \<in> set cs. inBounds (setAdjacent b x y ?n) (fst p) (snd p)"
      using rest by (simp add: inBounds_def dims_setAdjacent)
    from Cons.IH [OF r d rest'] show ?thesis using c False n by (simp add: p)
  qed
qed

lemma placeMines_terminates:
  assumes "rect b" "picksInRange b picks" "fairPicks b picks"
    "mines \<le> int (card (freeCells b initial))"
  shows "\<exists>b'. placeMines picks b mines initial = Some (Inr b')"
proof -
  from assms(1) obtain row0 rest where b: "b = row0 # rest" by (cases b) (auto simp: rect_def)
  have "mines - 0 \<le> int (card (freeCells b initial))" using assms(4) by simp
  from placeLoop_terminates [OF assms(1,2,3) this, of 0] obtain b1 where
    pl: "placeLoop picks 0 b mines initial 0 = Some (Inr b1)" by blast
  from placeLoop_inv [OF pl] have f1: "map (map eraseMine) b1 = map (map eraseMine) b"
    by (simp add: placeInv_def)
  then have sh: "map length b1 = map length b" by (metis frame_length)
  have r1: "rect b1" using sh assms(1) by (rule shape_rect)
  have l1: "length b1 = length b" using sh by (metis length_map)
  have h1: "length (hd b1) = length (hd b)" using sh by (rule shape_hd)
  have "\<forall>p \<in> set (gridCoords (int (length b)) (int (length (hd b)))). inBounds b1 (fst p) (snd p)"
    by (auto simp: gridCoords_iff inBounds_def l1 h1)
  from adjacentLoop_total [OF r1 _ _ this] obtain b2 where
    "adjacentLoop b1 (int (length b)) (int (length (hd b)))
       (gridCoords (int (length b)) (int (length (hd b)))) = Inr b2"
    using l1 h1 by auto
  then show ?thesis using pl by (simp add: placeMines_def b Let_def)
qed

lemma placeMines_diverges:
  assumes "rect b" "picksInRange b picks" "int (card (freeCells b initial)) < mines"
  shows "placeMines picks b mines initial = None"
proof -
  from assms(1) obtain row0 rest where b: "b = row0 # rest" by (cases b) (auto simp: rect_def)
  have "placeLoop picks 0 b mines initial 0 = None"
  proof (cases "placeLoop picks 0 b mines initial 0")
    case None
    then show ?thesis .
  next
    case (Some r)
    from placeLoop_diverges [OF Some] assms show ?thesis by simp
  qed
  then show ?thesis by (simp add: placeMines_def b Let_def)
qed

lemma card_boardCells_rect:
  assumes "rect b"
  shows "card (boardCells b) = length (hd b) * length b"
proof -
  have "boardCells b = (\<lambda>(i, j). (int i, int j)) ` ({0..<length (hd b)} \<times> {0..<length b})"
  proof (rule set_eqI)
    fix p :: "int \<times> int"
    obtain x y where p: "p = (x, y)" by (cases p)
    have "(x, y) \<in> (\<lambda>(i, j). (int i, int j)) ` ({0..<length (hd b)} \<times> {0..<length b})
        \<longleftrightarrow> inBounds b x y"
    proof
      assume "(x, y) \<in> (\<lambda>(i, j). (int i, int j)) ` ({0..<length (hd b)} \<times> {0..<length b})"
      then obtain i j where "x = int i" "y = int j" "i < length (hd b)" "j < length b" by auto
      then show "inBounds b x y" by (simp add: inBounds_def)
    next
      assume "inBounds b x y"
      then have "(nat x, nat y) \<in> {0..<length (hd b)} \<times> {0..<length b}" "int (nat x) = x" "int (nat y) = y"
        by (auto simp: inBounds_def)
      then show "(x, y) \<in> (\<lambda>(i, j). (int i, int j)) ` ({0..<length (hd b)} \<times> {0..<length b})"
        by (metis (mono_tags, lifting) case_prod_conv image_eqI)
    qed
    then show "p \<in> boardCells b
        \<longleftrightarrow> p \<in> (\<lambda>(i, j). (int i, int j)) ` ({0..<length (hd b)} \<times> {0..<length b})"
      unfolding p boardCells_rect [OF assms] by simp
  qed
  moreover have "inj_on (\<lambda>(i, j). (int i, int j)) ({0..<length (hd b)} \<times> {0..<length b})"
    by (auto simp: inj_on_def)
  ultimately show ?thesis by (simp add: card_image)
qed

lemma card_freeCells_fresh:
  assumes "rect b" "mineCount b = 0" "inBounds b (fst initial) (snd initial)"
  shows "int (card (freeCells b initial)) = int (length b) * int (length (hd b)) - 1"
proof -
  have nm: "\<not> mineAt b x y" for x y using mineAt_mineCount [of b x y] assms(2) by auto
  have f: "freeCells b initial = boardCells b - {initial}"
    unfolding freeCells_def using nm by auto
  have "initial \<in> boardCells b"
    using boardCells_rect [OF assms(1), of "fst initial" "snd initial"] assms(3) by simp
  then have "card (boardCells b - {initial}) = card (boardCells b) - 1" "card (boardCells b) > 0"
    using finite_boardCells [of b] by (auto simp: card_gt_0_iff)
  then have "int (card (boardCells b - {initial})) = int (card (boardCells b)) - 1"
    by linarith
  also have "int (card (boardCells b)) = int (length b) * int (length (hd b))"
    unfolding card_boardCells_rect [OF assms(1)] by (simp add: mult.commute)
  finally show ?thesis unfolding f .
qed

lemma cyclePicks_inRange: "length b = 2 \<Longrightarrow> length (hd b) = 2 \<Longrightarrow> picksInRange b cyclePicks"
  by (simp add: picksInRange_def cyclePicks_def inBounds_def)

lemma cyclePicks_fair:
  assumes "rect b" "length b = 2" "length (hd b) = 2"
  shows "fairPicks b cyclePicks"
  unfolding fairPicks_def
proof (intro ballI allI)
  fix p n assume "p \<in> boardCells b"
  obtain x y where p: "p = (x, y)" by (cases p)
  have "inBounds b x y" using \<open>p \<in> boardCells b\<close> unfolding p boardCells_rect [OF assms(1)] .
  then have xy: "0 \<le> x" "x < 2" "0 \<le> y" "y < 2" using assms(2,3) by (simp_all add: inBounds_def)
  define i j where "i = nat x" and "j = nat y"
  have ij: "i < 2" "j < 2" "x = int i" "y = int j" using xy by (simp_all add: i_def j_def)
  let ?k = "4 * n + 2 * j + i"
  have "?k mod 2 = i" using ij(1) by presburger
  moreover have "(?k div 2) mod 2 = j" using ij(1,2) by presburger
  ultimately have "cyclePicks ?k = (x, y)" using ij(3,4) by (simp add: cyclePicks_def)
  moreover have "n \<le> ?k" by simp
  ultimately show "\<exists>k\<ge>n. cyclePicks k = p" unfolding p by blast
qed

text \<open>
  Claim C9, amended. On a rectangular board, with picks that are in range:
  if \<open>mines\<close> is at most the number of cells that are neither mines nor the
  excluded cell, \<open>placeMines\<close> returns for every fair sequence of picks (so
  with probability 1); if \<open>mines\<close> exceeds that number it never returns,
  whatever the picks. On a board without mines and with the excluded cell in
  bounds that number is \<open>rows * cols - 1\<close>.
\<close>

theorem placeMines_termination:
  assumes "rect b" "picksInRange b picks"
  shows "(fairPicks b picks \<and> mines \<le> int (card (freeCells b initial))
            \<longrightarrow> (\<exists>b'. placeMines picks b mines initial = Some (Inr b')))
       \<and> (int (card (freeCells b initial)) < mines
            \<longrightarrow> placeMines picks b mines initial = None)
       \<and> (mineCount b = 0 \<and> inBounds b (fst initial) (snd initial)
            \<longrightarrow> int (card (freeCells b initial)) = int (length b) * int (length (hd b)) - 1)"
  using placeMines_terminates [OF assms] placeMines_diverges [OF assms]
    card_freeCells_fresh [OF assms(1)] by blast

theorem placeMines_termination_witness:
  "rect (createEmptyBoard 2 2) \<and> picksInRange (createEmptyBoard 2 2) cyclePicks
   \<and> fairPicks (createEmptyBoard 2 2) cyclePicks
   \<and> mineCount (createEmptyBoard 2 2) = 0 \<and> inBounds (createEmptyBoard 2 2) 0 0
   \<and> int (card (freeCells (createEmptyBoard 2 2) (0, 0))) = 3
   \<and> (\<exists>b'. placeMines cyclePicks (createEmptyBoard 2 2) 3 (0, 0) = Some (Inr b'))
   \<and> placeMines cyclePicks (createEmptyBoard 2 2) 4 (0, 0) = None"
proof -
  have l: "length (createEmptyBoard 2 2) = 2" "length (hd (createEmptyBoard 2 2)) = 2"
    by code_simp+
  have r: "rect (createEmptyBoard 2 2)" by code_simp
  have i: "picksInRange (createEmptyBoard 2 2) cyclePicks" using l by (rule cyclePicks_inRange)
  have f: "fairPicks (createEmptyBoard 2 2) cyclePicks" using r l by (rule cyclePicks_fair)
  have z: "mineCount (createEmptyBoard 2 2) = 0" by code_simp
  have o: "inBounds (createEmptyBoard 2 2) 0 0" by code_simp
  note t = placeMines_termination [OF r i, of _ "(0, 0)"]
  have c: "int (card (freeCells (createEmptyBoard 2 2) (0, 0))) = 3"
    using t [of 0] z o l by simp
  have "\<exists>b'. placeMines cyclePicks (createEmptyBoard 2 2) 3 (0, 0) = Some (Inr b')"
    using t [of 3] f c by simp
  moreover have "placeMines cyclePicks (createEmptyBoard 2 2) 4 (0, 0) = None"
    using t [of 4] c by simp
  ultimately show ?thesis using r i f z o c by blast
qed

text \<open>
  Claim C9 as stated fails: the loop counts the mines it places itself, from
  zero, so on a 2 by 2 board that already holds one mine (fewer than the 3
  asked for, and \<open>3 \<le> 2 * 2 - 1\<close>) only two cells are left to place three
  mines on, and the loop never ends, even on fair picks.
\<close>

theorem placeMines_termination_counterexample:
  "rect oneMineBoard \<and> mineCount oneMineBoard = 1 \<and> (1::int) < 3
   \<and> (3::int) \<le> int (length oneMineBoard) * int (length (hd oneMineBoard)) - 1
   \<and> picksInRange oneMineBoard cyclePicks \<and> fairPicks oneMineBoard cyclePicks
   \<and> placeMines cyclePicks oneMineBoard 3 (0, 0) = None"
proof -
  have l: "length oneMineBoard = 2" "length (hd oneMineBoard) = 2" by code_simp+
  have r: "rect oneMineBoard" by code_simp
  have i: "picksInRange oneMineBoard cyclePicks" using l by (rule cyclePicks_inRange)
  have f: "fairPicks oneMineBoard cyclePicks" using r l by (rule cyclePicks_fair)
  have m: "mineCount oneMineBoard = 1" by code_simp
  have c: "card (freeCells oneMineBoard (0, 0)) = 2" by code_simp
  have "placeMines cyclePicks oneMineBoard 3 (0, 0) = None"
    by (rule placeMines_diverges [OF r i]) (simp add: c)
  then show ?thesis using r i f m l by simp
qed

section \<open>Reveal propagator: the loop invariant\<close>

lemma revealInv_reach:
  "revealInv b0 s frontier visited b \<Longrightarrow> p \<in> set frontier \<union> visited \<Longrightarrow>
     floods b0 s p \<and> inBounds b0 (fst p) (snd p)"
  unfolding revealInv_def by blast

lemma revealInv_start: "revealInv b0 s frontier visited b \<Longrightarrow> s \<in> set frontier \<union> visited"
  unfolding revealInv_def by blast

lemma revealInv_closed:
  "revealInv b0 s frontier visited b \<Longrightarrow> p \<in> visited \<Longrightarrow> spreadsAt b0 (fst p) (snd p) \<Longrightarrow>
     adjacent8 p q \<Longrightarrow> inBounds b0 (fst q) (snd q) \<Longrightarrow> q \<in> set frontier \<union> visited"
  unfolding revealInv_def by blast

lemma revealInv_frame:
  "revealInv b0 s frontier visited b \<Longrightarrow> map (map eraseRevealed) b = map (map eraseRevealed) b0"
  unfolding revealInv_def by blast

lemma revealInv_cells:
  "revealInv b0 s frontier visited b \<Longrightarrow> cellAt b x y = expectedCell b0 visited x y"
  unfolding revealInv_def by blast

lemma revealInvI:
  assumes "\<And>p. p \<in> set frontier \<union> visited \<Longrightarrow> floods b0 s p \<and> inBounds b0 (fst p) (snd p)"
    "s \<in> set frontier \<union> visited"
    "\<And>p q. p \<in> visited \<Longrightarrow> spreadsAt b0 (fst p) (snd p) \<Longrightarrow> adjacent8 p q \<Longrightarrow>
       inBounds b0 (fst q) (snd q) \<Longrightarrow> q \<in> set frontier \<union> visited"
    "map (map eraseRevealed) b = map (map eraseRevealed) b0"
    "\<And>x y. cellAt b x y = expectedCell b0 visited x y"
  shows "revealInv b0 s frontier visited b"
  unfolding revealInv_def using assms by blast

lemma abs_le_one_int: "\<bar>d :: int\<bar> \<le> 1 \<longleftrightarrow> d = -1 \<or> d = 0 \<or> d = 1"
  by arith

lemma adjacent8_offsets: "adjacent8 (x, y) (x', y') \<longleftrightarrow> (x' - x, y' - y) \<in> set neighbourOffsets"
  unfolding adjacent8_def neighbourOffsets_eq abs_le_one_int by auto

lemma revealPushes_set:
  assumes "rows = int (length b)" "cols = int (length (hd b))"
  shows "set (revealPushes rows cols x y) = {q. adjacent8 (x, y) q \<and> inBounds b (fst q) (snd q)}"
proof (rule set_eqI)
  fix q :: "int \<times> int"
  obtain x' y' where q: "q = (x', y')" by (cases q)
  have "(x', y') \<in> (\<lambda>(dx, dy). (x + dx, y + dy)) ` set neighbourOffsets
        \<longleftrightarrow> (x' - x, y' - y) \<in> set neighbourOffsets"
  proof
    assume "(x', y') \<in> (\<lambda>(dx, dy). (x + dx, y + dy)) ` set neighbourOffsets"
    then obtain dx dy where "(dx, dy) \<in> set neighbourOffsets" "x' = x + dx" "y' = y + dy"
      by auto
    then show "(x' - x, y' - y) \<in> set neighbourOffsets" by simp
  next
    assume "(x' - x, y' - y) \<in> set neighbourOffsets"
    then have "(\<lambda>(dx, dy). (x + dx, y + dy)) (x' - x, y' - y)
        \<in> (\<lambda>(dx, dy). (x + dx, y + dy)) ` set neighbourOffsets" by (rule imageI)
    then show "(x', y') \<in> (\<lambda>(dx, dy). (x + dx, y + dy)) ` set neighbourOffsets" by simp
  qed
  moreover have "q \<in> set (revealPushes rows cols x y) \<longleftrightarrow>
      (x', y') \<in> (\<lambda>(dx, dy). (x + dx, y + dy)) ` set neighbourOffsets
      \<and> (x' \<ge> 0 \<and> x' < cols \<and> y' \<ge> 0 \<and> y' < rows)"
    by (simp add: revealPushes_def q)
  moreover have "inBounds b x' y' \<longleftrightarrow> (x' \<ge> 0 \<and> x' < cols \<and> y' \<ge> 0 \<and> y' < rows)"
    using assms by (auto simp: inBounds_def)
  moreover have "adjacent8 (x, y) (x', y') \<longleftrightarrow> (x' - x, y' - y) \<in> set neighbourOffsets"
    by (rule adjacent8_offsets)
  ultimately show "q \<in> set (revealPushes rows cols x y)
      \<longleftrightarrow> q \<in> {q. adjacent8 (x, y) q \<and> inBounds b (fst q) (snd q)}"
    by (simp add: q)
qed

lemma popAt_set:
  assumes "xs \<noteq> []" "popAt i xs = (a, rest)"
  shows "set xs = insert a (set rest)"
proof -
  let ?j = "min i (length xs - 1)"
  have j: "?j < length xs" using assms(1) by (cases xs) auto
  have a: "a = xs ! ?j" and r: "rest = take ?j xs @ drop (Suc ?j) xs"
    using assms(2) by (simp_all add: popAt_def Let_def)
  have "xs = take ?j xs @ xs ! ?j # drop (Suc ?j) xs" using j by (rule id_take_nth_drop)
  then have "set xs = set (take ?j xs @ xs ! ?j # drop (Suc ?j) xs)" by simp
  then show ?thesis unfolding a r by simp
qed

lemma expectedCell_insert_other:
  "(x', y') \<noteq> (x, y) \<Longrightarrow> expectedCell b0 (insert (x, y) V) x' y' = expectedCell b0 V x' y'"
  by (cases "cellAt b0 x' y'") (auto simp add: expectedCell_def)

lemma revealInv_pop_visited:
  assumes "revealInv b0 s frontier visited b" "frontier \<noteq> []"
    "popAt i frontier = (p, rest)" "p \<in> visited"
  shows "revealInv b0 s rest visited b"
proof -
  have "set frontier \<union> visited = set rest \<union> visited"
    using popAt_set [OF assms(2,3)] assms(4) by auto
  then show ?thesis using assms(1) unfolding revealInv_def by simp
qed

lemma revealInv_cell:
  assumes "revealInv b0 s frontier visited b" "frontier \<noteq> []"
    "popAt i frontier = ((x, y), rest)" "(x, y) \<notin> visited" "rect b0"
  shows "\<exists>c. cellAt b x y = Inr c \<and> cellAt b0 x y = Inr c"
proof -
  have "(x, y) \<in> set frontier" using popAt_set [OF assms(2,3)] by simp
  then have "(x, y) \<in> set frontier \<union> visited" by simp
  from revealInv_reach [OF assms(1) this] have "inBounds b0 x y" by simp
  then obtain c where c: "cellAt b0 x y = Inr c" using assms(5) by (metis cellAt_Inr_iff)
  have "cellAt b x y = expectedCell b0 visited x y" using assms(1) by (rule revealInv_cells)
  then have "cellAt b x y = Inr c" using c assms(4) by (simp add: expectedCell_def)
  then show ?thesis using c by blast
qed

declare revealLoopBy.simps [simp del]

declare revealLoop.simps [simp del]

lemma spreadsAt_Inr:
  "cellAt b x y = Inr c \<Longrightarrow>
     spreadsAt b x y \<longleftrightarrow> \<not> isRevealed c \<and> \<not> isFlagged c \<and> adjacent c = 0 \<and> \<not> isMine c"
  by (simp add: spreadsAt_def)

lemma revealInv_skip:
  assumes inv: "revealInv b0 s frontier visited b" and ne: "frontier \<noteq> []"
    and pop: "popAt i frontier = ((x, y), rest)" and c0: "cellAt b0 x y = Inr c"
    and skip: "isRevealed c \<or> isFlagged c"
  shows "revealInv b0 s rest (insert (x, y) visited) b"
proof (rule revealInvI)
  have st: "set frontier = insert (x, y) (set rest)" by (rule popAt_set [OF ne pop])
  then have un: "set rest \<union> insert (x, y) visited = set frontier \<union> visited" by auto
  show "floods b0 s p \<and> inBounds b0 (fst p) (snd p)" if "p \<in> set rest \<union> insert (x, y) visited" for p
    using that revealInv_reach [OF inv, of p] unfolding un by blast
  show "s \<in> set rest \<union> insert (x, y) visited"
    using revealInv_start [OF inv] unfolding un .
  show "q \<in> set rest \<union> insert (x, y) visited"
    if "p \<in> insert (x, y) visited" "spreadsAt b0 (fst p) (snd p)" "adjacent8 p q"
      "inBounds b0 (fst q) (snd q)" for p q
  proof (cases "p = (x, y)")
    case True
    then have False using that(2) skip by (auto simp add: spreadsAt_Inr [OF c0])
    then show ?thesis ..
  next
    case False
    then have "p \<in> visited" using that(1) by simp
    from revealInv_closed [OF inv this that(2,3,4)] show ?thesis unfolding un .
  qed
  show "map (map eraseRevealed) b = map (map eraseRevealed) b0" by (rule revealInv_frame [OF inv])
  show "cellAt b x' y' = expectedCell b0 (insert (x, y) visited) x' y'" for x' y'
  proof (cases "(x', y') = (x, y)")
    case True
    have "expectedCell b0 (insert (x, y) visited) x y = Inr c"
      using skip by (auto simp add: expectedCell_def c0)
    moreover have "expectedCell b0 visited x y = Inr c"
      using skip by (auto simp add: expectedCell_def c0)
    ultimately show ?thesis using revealInv_cells [OF inv, of x y] True by simp
  next
    case False
    then show ?thesis using revealInv_cells [OF inv, of x' y']
      by (simp add: expectedCell_insert_other)
  qed
qed

lemma revealInv_reveal_cells:
  assumes inv: "revealInv b0 s frontier visited b"
    and c0: "cellAt b0 x y = Inr c" and cb: "cellAt b x y = Inr c"
    and hid: "\<not> (isRevealed c \<or> isFlagged c)"
  shows "cellAt (setRevealed b x y) x' y' = expectedCell b0 (insert (x, y) visited) x' y'"
proof (cases "(x', y') = (x, y)")
  case True
  have "expectedCell b0 (insert (x, y) visited) x y = Inr (c\<lparr>isRevealed := True\<rparr>)"
    using hid by (simp add: expectedCell_def c0)
  moreover have "cellAt (setRevealed b x y) x y = Inr (c\<lparr>isRevealed := True\<rparr>)"
    unfolding setRevealed_def cellAt_updCell [OF cb] by simp
  ultimately show ?thesis using True by simp
next
  case False
  have "cellAt (setRevealed b x y) x' y' = cellAt b x' y'"
    unfolding setRevealed_def cellAt_updCell [OF cb] using False by auto
  then show ?thesis using revealInv_cells [OF inv, of x' y'] False
    by (simp add: expectedCell_insert_other)
qed

lemma revealInv_stop:
  assumes inv: "revealInv b0 s frontier visited b" and ne: "frontier \<noteq> []"
    and pop: "popAt i frontier = ((x, y), rest)"
    and c0: "cellAt b0 x y = Inr c" and cb: "cellAt b x y = Inr c"
    and hid: "\<not> (isRevealed c \<or> isFlagged c)"
    and stop: "\<not> (adjacent c = 0 \<and> \<not> isMine c)"
  shows "revealInv b0 s rest (insert (x, y) visited) (setRevealed b x y)"
proof (rule revealInvI)
  have st: "set frontier = insert (x, y) (set rest)" by (rule popAt_set [OF ne pop])
  then have un: "set rest \<union> insert (x, y) visited = set frontier \<union> visited" by auto
  show "floods b0 s p \<and> inBounds b0 (fst p) (snd p)" if "p \<in> set rest \<union> insert (x, y) visited" for p
    using that revealInv_reach [OF inv, of p] unfolding un by blast
  show "s \<in> set rest \<union> insert (x, y) visited"
    using revealInv_start [OF inv] unfolding un .
  show "q \<in> set rest \<union> insert (x, y) visited"
    if "p \<in> insert (x, y) visited" "spreadsAt b0 (fst p) (snd p)" "adjacent8 p q"
      "inBounds b0 (fst q) (snd q)" for p q
  proof (cases "p = (x, y)")
    case True
    then have False using that(2) stop by (auto simp add: spreadsAt_Inr [OF c0])
    then show ?thesis ..
  next
    case False
    then have "p \<in> visited" using that(1) by simp
    from revealInv_closed [OF inv this that(2,3,4)] show ?thesis unfolding un .
  qed
  show "map (map eraseRevealed) (setRevealed b x y) = map (map eraseRevealed) b0"
    using revealInv_frame [OF inv] frame_setRevealed [of b x y] by simp
  show "cellAt (setRevealed b x y) x' y' = expectedCell b0 (insert (x, y) visited) x' y'" for x' y'
    by (rule revealInv_reveal_cells [OF inv c0 cb hid])
qed

lemma revealInv_spread:
  assumes inv: "revealInv b0 s frontier visited b" and ne: "frontier \<noteq> []"
    and pop: "popAt i frontier = ((x, y), rest)"
    and c0: "cellAt b0 x y = Inr c" and cb: "cellAt b x y = Inr c"
    and hid: "\<not> (isRevealed c \<or> isFlagged c)"
    and zero: "adjacent c = 0 \<and> \<not> isMine c"
    and dims: "rows = int (length b0)" "cols = int (length (hd b0))"
  shows "revealInv b0 s (rest @ revealPushes rows cols x y) (insert (x, y) visited)
           (setRevealed b x y)"
proof (rule revealInvI)
  have st: "set frontier = insert (x, y) (set rest)" by (rule popAt_set [OF ne pop])
  have pu: "set (revealPushes rows cols x y)
      = {q. adjacent8 (x, y) q \<and> inBounds b0 (fst q) (snd q)}"
    by (rule revealPushes_set [OF dims])
  have un: "set (rest @ revealPushes rows cols x y) \<union> insert (x, y) visited
      = (set frontier \<union> visited) \<union> {q. adjacent8 (x, y) q \<and> inBounds b0 (fst q) (snd q)}"
    unfolding set_append pu st by auto
  have here: "(x, y) \<in> set frontier \<union> visited" using st by simp
  have sp: "spreadsAt b0 x y" using hid zero by (simp add: spreadsAt_Inr [OF c0])
  have fl: "floods b0 s (x, y)" using revealInv_reach [OF inv here] by simp
  show "floods b0 s p \<and> inBounds b0 (fst p) (snd p)"
    if "p \<in> set (rest @ revealPushes rows cols x y) \<union> insert (x, y) visited" for p
  proof (cases "p \<in> set frontier \<union> visited")
    case True
    then show ?thesis by (rule revealInv_reach [OF inv])
  next
    case False
    then have n: "adjacent8 (x, y) p" "inBounds b0 (fst p) (snd p)" using that unfolding un by auto
    have "floods b0 s p" using fl sp n by (auto intro: floods.step [of b0 s "(x, y)" p])
    then show ?thesis using n by simp
  qed
  show "s \<in> set (rest @ revealPushes rows cols x y) \<union> insert (x, y) visited"
    using revealInv_start [OF inv] unfolding un by simp
  show "q \<in> set (rest @ revealPushes rows cols x y) \<union> insert (x, y) visited"
    if "p \<in> insert (x, y) visited" "spreadsAt b0 (fst p) (snd p)" "adjacent8 p q"
      "inBounds b0 (fst q) (snd q)" for p q
  proof (cases "p = (x, y)")
    case True
    then show ?thesis using that(3,4) unfolding un by simp
  next
    case False
    then have "p \<in> visited" using that(1) by simp
    from revealInv_closed [OF inv this that(2,3,4)] show ?thesis unfolding un by simp
  qed
  show "map (map eraseRevealed) (setRevealed b x y) = map (map eraseRevealed) b0"
    using revealInv_frame [OF inv] frame_setRevealed [of b x y] by simp
  show "cellAt (setRevealed b x y) x' y' = expectedCell b0 (insert (x, y) visited) x' y'" for x' y'
    by (rule revealInv_reveal_cells [OF inv c0 cb hid])
qed

lemma revealInv_final:
  assumes inv: "revealInv b0 s [] visited b"
  shows "visited = {p. floods b0 s p}"
proof (rule set_eqI)
  fix p
  have "p \<in> visited" if "floods b0 s p"
    using that
  proof (induction rule: floods.induct)
    case start
    show ?case using revealInv_start [OF inv] by simp
  next
    case (step p q)
    from revealInv_closed [OF inv step.IH step.hyps(2,3,4)] show ?case by simp
  qed
  moreover have "floods b0 s p" if "p \<in> visited"
    using revealInv_reach [OF inv, of p] that by simp
  ultimately show "p \<in> visited \<longleftrightarrow> p \<in> {p. floods b0 s p}" by blast
qed

lemma revealLoopBy_correct:
  "rect b0 \<Longrightarrow> rows = int (length b0) \<Longrightarrow> cols = int (length (hd b0)) \<Longrightarrow>
   revealInv b0 s frontier visited b \<Longrightarrow>
   \<exists>b'. revealLoopBy sel rows cols frontier visited b = Inr b'
      \<and> map (map eraseRevealed) b' = map (map eraseRevealed) b0
      \<and> (\<forall>x y. cellAt b' x y = expectedCell b0 {p. floods b0 s p} x y)"
proof (induction sel rows cols frontier visited b rule: revealLoopBy.induct)
  case (1 sel rows cols frontier visited b)
  note inv = "1.prems"(4) and dims = "1.prems"(2,3) and rect = "1.prems"(1)
  show ?case
  proof (cases "frontier = []")
    case True
    have v: "visited = {p. floods b0 s p}" using inv unfolding True by (rule revealInv_final)
    have "revealLoopBy sel rows cols frontier visited b = Inr b"
      using True by (subst revealLoopBy.simps) simp
    then show ?thesis using revealInv_frame [OF inv] revealInv_cells [OF inv] v by simp
  next
    case ne: False
    obtain x y rest where pop: "popAt (sel frontier) frontier = ((x, y), rest)"
      by (metis prod.exhaust)
    have pop': "((x, y), rest) = popAt (sel frontier) frontier" using pop by simp
    show ?thesis
    proof (cases "(x, y) \<in> visited")
      case True
      have i: "revealInv b0 s rest visited b"
        by (rule revealInv_pop_visited [OF inv ne pop True])
      have e: "revealLoopBy sel rows cols frontier visited b
             = revealLoopBy sel rows cols rest visited b"
        using ne pop True by (subst revealLoopBy.simps) simp
      show ?thesis unfolding e
        by (rule "1.IH"(1) [OF ne pop' refl True rect dims i])
    next
      case nv: False
      from revealInv_cell [OF inv ne pop nv rect] obtain c where
        cb: "cellAt b x y = Inr c" and c0: "cellAt b0 x y = Inr c" by blast
      show ?thesis
      proof (cases "isRevealed c \<or> isFlagged c")
        case True
        have i: "revealInv b0 s rest (insert (x, y) visited) b"
          by (rule revealInv_skip [OF inv ne pop c0 True])
        have e: "revealLoopBy sel rows cols frontier visited b
               = revealLoopBy sel rows cols rest (insert (x, y) visited) b"
          using ne pop nv cb True by (subst revealLoopBy.simps) simp
        show ?thesis unfolding e
          by (rule "1.IH"(2) [OF ne pop' refl nv cb True rect dims i])
      next
        case hid: False
        show ?thesis
        proof (cases "adjacent c = 0 \<and> \<not> isMine c")
          case True
          have i: "revealInv b0 s (rest @ revealPushes rows cols x y) (insert (x, y) visited)
                     (setRevealed b x y)"
            by (rule revealInv_spread [OF inv ne pop c0 cb hid True dims])
          have e: "revealLoopBy sel rows cols frontier visited b
                 = revealLoopBy sel rows cols (rest @ revealPushes rows cols x y)
                     (insert (x, y) visited) (setRevealed b x y)"
            using ne pop nv cb hid True
            by (subst revealLoopBy.simps) simp
          show ?thesis unfolding e
            by (rule "1.IH"(3) [OF ne pop' refl nv cb hid True rect dims i])
        next
          case False
          have i: "revealInv b0 s rest (insert (x, y) visited) (setRevealed b x y)"
            by (rule revealInv_stop [OF inv ne pop c0 cb hid False])
          have e: "revealLoopBy sel rows cols frontier visited b
                 = revealLoopBy sel rows cols rest (insert (x, y) visited) (setRevealed b x y)"
            using ne pop nv cb hid False
            by (subst revealLoopBy.simps) auto
          show ?thesis unfolding e
            by (rule "1.IH"(4) [OF ne pop' refl nv cb hid False rect dims i])
        qed
      qed
    qed
  qed
qed

section \<open>Reveal propagator: result and frame\<close>

lemma popAt_lifo: "stack \<noteq> [] \<Longrightarrow> popAt (lifo stack) stack = (last stack, butlast stack)"
  by (simp add: popAt_def lifo_def Let_def last_conv_nth butlast_conv_take)

lemma revealLoop_lifo:
  "revealLoop rows cols stack visited b = revealLoopBy lifo rows cols stack visited b"
proof (induction rows cols stack visited b rule: revealLoop.induct)
  case (1 rows cols stack visited b)
  show ?case
  proof (cases "stack = []")
    case True
    then show ?thesis
      by (subst revealLoop.simps, subst revealLoopBy.simps) simp
  next
    case ne: False
    obtain x y where l: "last stack = (x, y)" by (cases "last stack")
    have l': "(x, y) = last stack" using l by simp
    note pop = popAt_lifo [OF ne]
    show ?thesis
    proof (cases "(x, y) \<in> visited")
      case True
      show ?thesis using "1.IH"(1) [OF ne l' True] ne l True pop
        by (subst revealLoop.simps, subst revealLoopBy.simps) simp
    next
      case nv: False
      show ?thesis
      proof (cases "cellAt b x y")
        case (Inl e)
        then show ?thesis using ne l nv pop
          by (subst revealLoop.simps, subst revealLoopBy.simps) simp
      next
        case (Inr c)
        show ?thesis
        proof (cases "isRevealed c \<or> isFlagged c")
          case True
          show ?thesis using "1.IH"(2) [OF ne l' nv Inr True] ne l nv pop Inr True
            by (subst revealLoop.simps, subst revealLoopBy.simps) simp
        next
          case hid: False
          show ?thesis
          proof (cases "adjacent c = 0 \<and> \<not> isMine c")
            case True
            show ?thesis using "1.IH"(3) [OF ne l' nv Inr hid True] ne l nv pop Inr hid True
              by (subst revealLoop.simps, subst revealLoopBy.simps) simp
          next
            case False
            show ?thesis using "1.IH"(4) [OF ne l' nv Inr hid False] ne l nv pop Inr hid False
              by (subst revealLoop.simps, subst revealLoopBy.simps) auto
          qed
        qed
      qed
    qed
  qed
qed

lemma revealCell_lifo: "revealCell b x y = revealCellBy lifo b x y"
  by (cases b) (simp_all add: revealCell_def revealCellBy_def revealLoop_lifo)

lemma board_eqI:
  assumes "map length b' = map length b" "\<And>x y. cellAt b' x y = cellAt b x y"
  shows "b' = (b :: Board)"
proof (rule nth_equalityI)
  show l: "length b' = length b" using assms(1) by (metis length_map)
  fix j assume j: "j < length b'"
  have n: "length (b' ! j) = length (b ! j)" using assms(1) j l by (metis nth_map)
  show "b' ! j = b ! j"
  proof (rule nth_equalityI)
    show "length (b' ! j) = length (b ! j)" by (rule n)
    fix i assume i: "i < length (b' ! j)"
    have "cellAt b' (int i) (int j) = Inr (b' ! j ! i)" using i j by (simp add: cellAt_def)
    moreover have "cellAt b (int i) (int j) = Inr (b ! j ! i)" using i j l n by (simp add: cellAt_def)
    ultimately show "b' ! j ! i = b ! j ! i" using assms(2) [of "int i" "int j"] by simp
  qed
qed

lemma revealInv_init:
  assumes "inBounds b x y"
  shows "revealInv b (x, y) [(x, y)] {} b"
proof (rule revealInvI)
  show "floods b (x, y) p \<and> inBounds b (fst p) (snd p)" if "p \<in> set [(x, y)] \<union> {}" for p
    using that assms by (auto intro: floods.start)
  show "(x, y) \<in> set [(x, y)] \<union> {}" by simp
  show "q \<in> set [(x, y)] \<union> {}" if "p \<in> {}" for p q :: "int \<times> int"
    using that by simp
  show "map (map eraseRevealed) b = map (map eraseRevealed) b" by simp
  show "cellAt b x' y' = expectedCell b {} x' y'" for x' y'
    by (cases "cellAt b x' y'") (simp_all add: expectedCell_def)
qed

lemma revealCellBy_correct:
  assumes "rect b" "inBounds b x y"
  shows "\<exists>b'. revealCellBy sel b x y = Inr b'
      \<and> map (map eraseRevealed) b' = map (map eraseRevealed) b
      \<and> (\<forall>x' y'. cellAt b' x' y' = expectedCell b {p. floods b (x, y) p} x' y')"
proof -
  from assms(1) obtain row0 rest where b: "b = row0 # rest" by (cases b) (auto simp: rect_def)
  have e: "revealCellBy sel b x y
      = revealLoopBy sel (int (length b)) (int (length (hd b))) [(x, y)] {} b"
    by (simp add: revealCellBy_def b)
  show ?thesis unfolding e
    by (rule revealLoopBy_correct [OF assms(1) refl refl revealInv_init [OF assms(2)]])
qed

lemma revealCellBy_unique:
  assumes "rect b" "inBounds b x y" "revealCellBy sel b x y = Inr b1"
    "revealCellBy sel' b x y = Inr b2"
  shows "b1 = b2"
proof -
  from revealCellBy_correct [OF assms(1,2), of sel] assms(3)
  have f1: "map (map eraseRevealed) b1 = map (map eraseRevealed) b"
    and c1: "\<And>x' y'. cellAt b1 x' y' = expectedCell b {p. floods b (x, y) p} x' y'"
    by auto
  from revealCellBy_correct [OF assms(1,2), of sel'] assms(4)
  have f2: "map (map eraseRevealed) b2 = map (map eraseRevealed) b"
    and c2: "\<And>x' y'. cellAt b2 x' y' = expectedCell b {p. floods b (x, y) p} x' y'"
    by auto
  have "map length b1 = map length b2" using f1 f2 by (metis frame_length)
  then show ?thesis using c1 c2 by (intro board_eqI) simp_all
qed

lemma expectedCell_revealedAt:
  assumes "\<And>x' y'. cellAt b' x' y' = expectedCell b V x' y'"
  shows "revealedAt b' x' y' \<longleftrightarrow> revealedAt b x' y' \<or> (hiddenAt b x' y' \<and> (x', y') \<in> V)"
  unfolding revealedAt_def hiddenAt_def assms expectedCell_def
  by (cases "cellAt b x' y'") auto

lemma eraseRevealed_fields:
  "isMine (eraseRevealed c) = isMine c" "isFlagged (eraseRevealed c) = isFlagged c"
  "adjacent (eraseRevealed c) = adjacent c" "cell_x (eraseRevealed c) = cell_x c"
  "cell_y (eraseRevealed c) = cell_y c"
  by (simp_all add: eraseRevealed_def)

lemma frame_countFlags:
  assumes "map (map eraseRevealed) b' = map (map eraseRevealed) b"
  shows "countFlags b' = countFlags b"
  unfolding countFlags_def
  using frame_count [OF assms, of isFlagged] by (simp add: eraseRevealed_fields)

lemma frame_revealed_fields:
  assumes "map (map eraseRevealed) b' = map (map eraseRevealed) b" "cellAt b' x y = Inr c'"
  shows "\<exists>c. cellAt b x y = Inr c \<and> isMine c' = isMine c \<and> isFlagged c' = isFlagged c
           \<and> adjacent c' = adjacent c"
proof -
  from frame_Inr [OF frame_sym [OF assms(1)] assms(2)] obtain c where
    c: "cellAt b x y = Inr c" "eraseRevealed c = eraseRevealed c'" by blast
  have "isMine c' = isMine c" using c(2) by (metis eraseRevealed_fields(1))
  moreover have "isFlagged c' = isFlagged c" using c(2) by (metis eraseRevealed_fields(2))
  moreover have "adjacent c' = adjacent c" using c(2) by (metis eraseRevealed_fields(3))
  ultimately show ?thesis using c(1) by blast
qed

lemma rect_corridorBoard: "rect corridorBoard"
  by code_simp

lemma revealCell_corridorBoard: "revealCell corridorBoard 0 0 = Inr corridorRevealed"
  by code_simp

text \<open>
  Claim C1, amended. On a rectangular board and for an in-bounds start,
  \<open>revealCell\<close> returns a board, the same for every frontier order, on which a
  cell is revealed exactly when it was revealed before or it is a hidden,
  unflagged cell of the flood region: the start cell, or a neighbour of a
  hidden, unflagged, non-mine zero cell of the region. Flagged cells and cells
  revealed before are not marked, and propagation does not pass through
  either of them.
\<close>

theorem revealCell_flood_region:
  assumes "rect b" "inBounds b x y"
  shows "\<exists>b'. revealCell b x y = Inr b'
      \<and> (\<forall>sel. revealCellBy sel b x y = Inr b')
      \<and> (\<forall>x' y'. revealedAt b' x' y' \<longleftrightarrow>
            revealedAt b x' y' \<or> (hiddenAt b x' y' \<and> floods b (x, y) (x', y')))"
proof -
  from revealCellBy_correct [OF assms, of lifo] obtain b' where
    r: "revealCellBy lifo b x y = Inr b'"
    and c: "\<And>x' y'. cellAt b' x' y' = expectedCell b {p. floods b (x, y) p} x' y'"
    by blast
  have any: "revealCellBy sel b x y = Inr b'" for sel
  proof -
    from revealCellBy_correct [OF assms, of sel] obtain b2 where
      r2: "revealCellBy sel b x y = Inr b2" by blast
    from revealCellBy_unique [OF assms r2 r] show ?thesis using r2 by simp
  qed
  have "revealedAt b' x' y' \<longleftrightarrow>
      revealedAt b x' y' \<or> (hiddenAt b x' y' \<and> floods b (x, y) (x', y'))" for x' y'
    using expectedCell_revealedAt [of b' b "{p. floods b (x, y) p}" x' y'] c by simp
  then show ?thesis using r any unfolding revealCell_lifo by blast
qed

theorem revealCell_flood_region_witness:
  "rect corridorBoard \<and> inBounds corridorBoard 0 0
   \<and> revealCell corridorBoard 0 0 = Inr corridorRevealed
   \<and> revealCellBy fifo corridorBoard 0 0 = Inr corridorRevealed
   \<and> revealedAt corridorRevealed 1 0
   \<and> \<not> revealedAt corridorRevealed 3 0
   \<and> \<not> floods corridorBoard (0, 0) (3, 0)"
proof -
  have i: "inBounds corridorBoard 0 0" by code_simp
  from revealCell_flood_region [OF rect_corridorBoard i] obtain b' where
    r: "revealCell corridorBoard 0 0 = Inr b'"
    and any: "\<And>sel. revealCellBy sel corridorBoard 0 0 = Inr b'"
    and iff: "\<And>x' y'. revealedAt b' x' y' \<longleftrightarrow>
            revealedAt corridorBoard x' y'
            \<or> (hiddenAt corridorBoard x' y' \<and> floods corridorBoard (0, 0) (x', y'))"
    by blast
  have b': "b' = corridorRevealed" using r revealCell_corridorBoard by simp
  have r1: "revealedAt corridorRevealed 1 0" by code_simp
  have r3: "\<not> revealedAt corridorRevealed 3 0" by code_simp
  have h3: "hiddenAt corridorBoard 3 0" by code_simp
  have "\<not> floods corridorBoard (0, 0) (3, 0)" using iff [of 3 0] r3 h3 unfolding b' by blast
  then show ?thesis
    using rect_corridorBoard i revealCell_corridorBoard any [of fifo] r1 r3 unfolding b' by blast
qed

text \<open>
  Claim C1 as stated fails: on the corridor the fourth cell belongs to the
  connected component of zero cells of the start (no cell is flagged), yet a
  reveal at the start leaves it hidden, because the revealed third cell is
  skipped and not expanded.
\<close>

theorem revealCell_component_counterexample:
  "zeroComponent corridorBoard (0, 0) (3, 0)
   \<and> \<not> isFlagged (mkCell 2 0 False True False 0)
   \<and> revealCell corridorBoard 0 0 = Inr corridorRevealed
   \<and> \<not> revealedAt corridorRevealed 3 0"
proof -
  have z: "zeroAt corridorBoard (0, 0)" "zeroAt corridorBoard (1, 0)"
    "zeroAt corridorBoard (2, 0)" "zeroAt corridorBoard (3, 0)"
    by code_simp+
  have a: "adjacent8 (0, 0) (1, 0)" "adjacent8 (1, 0) (2, 0)" "adjacent8 (2, 0) (3, 0)"
    by (simp_all add: adjacent8_def)
  have "zeroComponent corridorBoard (0, 0) (0, 0)" using z(1) by (rule zeroComponent.origin)
  then have "zeroComponent corridorBoard (0, 0) (1, 0)" using a(1) z(2) by (rule zeroComponent.grow)
  then have "zeroComponent corridorBoard (0, 0) (2, 0)" using a(2) z(3) by (rule zeroComponent.grow)
  then have "zeroComponent corridorBoard (0, 0) (3, 0)" using a(3) z(4) by (rule zeroComponent.grow)
  moreover have "\<not> revealedAt corridorRevealed 3 0" by code_simp
  moreover have "\<not> isFlagged (mkCell 2 0 False True False 0)" by (simp add: mkCell_def)
  ultimately show ?thesis using revealCell_corridorBoard by blast
qed

text \<open>
  Claim C8. On a rectangular board and for an in-bounds start, \<open>revealCell\<close>
  returns a board that differs from its input in \<open>isRevealed\<close> fields only:
  \<open>isMine\<close>, \<open>isFlagged\<close> and \<open>adjacent\<close> of every cell are unchanged, and so
  is \<open>countFlags\<close>.
\<close>

theorem revealCell_frame:
  assumes "rect b" "inBounds b x y"
  shows "\<exists>b'. revealCell b x y = Inr b'
      \<and> map (map eraseRevealed) b' = map (map eraseRevealed) b
      \<and> (\<forall>x' y' c'. cellAt b' x' y' = Inr c' \<longrightarrow>
            (\<exists>c. cellAt b x' y' = Inr c \<and> isMine c' = isMine c
                 \<and> isFlagged c' = isFlagged c \<and> adjacent c' = adjacent c))
      \<and> countFlags b' = countFlags b"
proof -
  from revealCellBy_correct [OF assms, of lifo] obtain b' where
    r: "revealCellBy lifo b x y = Inr b'"
    and f: "map (map eraseRevealed) b' = map (map eraseRevealed) b"
    by blast
  have "\<exists>c. cellAt b x' y' = Inr c \<and> isMine c' = isMine c
                 \<and> isFlagged c' = isFlagged c \<and> adjacent c' = adjacent c"
    if "cellAt b' x' y' = Inr c'" for x' y' c'
    using f that by (rule frame_revealed_fields)
  then show ?thesis using r f frame_countFlags [OF f] unfolding revealCell_lifo by blast
qed

theorem revealCell_frame_witness:
  "rect flagBoard \<and> inBounds flagBoard 0 0
   \<and> revealCell flagBoard 0 0 = Inr flagBoardRevealed
   \<and> map (map eraseRevealed) flagBoardRevealed = map (map eraseRevealed) flagBoard
   \<and> countFlags flagBoardRevealed = countFlags flagBoard
   \<and> countFlags flagBoard = 1"
proof -
  have r: "rect flagBoard" by code_simp
  have i: "inBounds flagBoard 0 0" by code_simp
  have e: "revealCell flagBoard 0 0 = Inr flagBoardRevealed" by code_simp
  have c: "countFlags flagBoard = 1" by code_simp
  from revealCell_frame [OF r i] e
  have "map (map eraseRevealed) flagBoardRevealed = map (map eraseRevealed) flagBoard
      \<and> countFlags flagBoardRevealed = countFlags flagBoard"
    by auto
  then show ?thesis using r i e c by blast
qed

section \<open>Game controller: the click handler by cases\<close>

lemma cellAt_map: "cellAt (map (map f) b) x y = map_sum id f (cellAt b x y)"
proof (cases "0 \<le> y \<and> y < int (length b)")
  case y: True
  then have ny: "nat y < length b" by linarith
  have row: "map (map f) b ! nat y = map f (b ! nat y)" using ny by simp
  show ?thesis
  proof (cases "0 \<le> x \<and> x < int (length (b ! nat y))")
    case True
    then have "nat x < length (b ! nat y)" by linarith
    then show ?thesis using y True by (simp add: cellAt_def row)
  next
    case False
    then show ?thesis using y by (auto simp add: cellAt_def row)
  qed
next
  case False
  then show ?thesis by (auto simp add: cellAt_def)
qed

lemma handleCellClick_outside:
  assumes "cellAt (board s) x y = Inl TypeError"
  shows "handleCellClick picks s x y
       = Some (if status s = Playing then Some TypeError else None, s)"
  using assms by (simp add: handleCellClick_def Let_def)

lemma handleCellRightClick_outside:
  assumes "cellAt (board s) x y = Inl TypeError"
  shows "handleCellRightClick s x y
       = (if status s = Playing \<and> started s then Some TypeError else None, s)"
  using assms by (simp add: handleCellRightClick_def Let_def)

lemma rect_createEmptyBoard: "0 < rows \<Longrightarrow> rect (createEmptyBoard rows cols)"
proof -
  assume "0 < rows"
  then obtain n where n: "nat rows = Suc n" by (cases "nat rows") auto
  have "hd (createEmptyBoard rows cols) = createEmptyBoard rows cols ! 0"
    by (simp add: createEmptyBoard_def n hd_conv_nth del: upt_Suc)
  then have "length (hd (createEmptyBoard rows cols)) = nat cols"
    by (simp add: createEmptyBoard_def n del: upt_Suc)
  moreover have "length row = nat cols" if "row \<in> set (createEmptyBoard rows cols)" for row
    using that by (auto simp: createEmptyBoard_def)
  moreover have "createEmptyBoard rows cols \<noteq> []" by (simp add: createEmptyBoard_def n)
  ultimately show ?thesis by (simp add: rect_def)
qed

lemma rect_fresh: "rect (board (freshSession d))"
  by (cases d) (simp_all add: freshSession_def rect_createEmptyBoard)

text \<open>
  Claim C6, amended. For coordinates outside a rectangular board, both handlers
  leave the whole session state as it was. They do not return normally,
  though: \<open>handleCellClick\<close> throws a \<open>TypeError\<close> whenever the status is
  Playing, and \<open>handleCellRightClick\<close> throws it whenever the status is Playing
  and the session has started; otherwise they return without effect.
\<close>

theorem handlers_out_of_range:
  assumes "rect (board s)"
    "x < 0 \<or> x \<ge> int (length (hd (board s))) \<or> y < 0 \<or> y \<ge> int (length (board s))"
  shows "handleCellClick picks s x y
           = Some (if status s = Playing then Some TypeError else None, s)
       \<and> handleCellRightClick s x y
           = (if status s = Playing \<and> started s then Some TypeError else None, s)"
proof -
  have "\<not> inBounds (board s) x y" using assms(2) by (auto simp: inBounds_def)
  then have "cellAt (board s) x y = Inl TypeError" using assms(1) by (simp add: rect_cellAt)
  then show ?thesis
    using handleCellClick_outside handleCellRightClick_outside by blast
qed

theorem handlers_out_of_range_witness:
  "rect (board (freshSession Beginner))
   \<and> (9 < (0::int) \<or> (9::int) \<ge> int (length (hd (board (freshSession Beginner))))
      \<or> (0::int) < 0 \<or> (0::int) \<ge> int (length (board (freshSession Beginner))))
   \<and> handleCellClick examplePicks (freshSession Beginner) 9 0
       = Some (Some TypeError, freshSession Beginner)
   \<and> handleCellRightClick (freshSession Beginner) 9 0 = (None, freshSession Beginner)"
proof -
  have l: "int (length (hd (board (freshSession Beginner)))) = 9" by code_simp
  have s: "status (freshSession Beginner) = Playing" "\<not> started (freshSession Beginner)"
    by (simp_all add: freshSession_def)
  have o: "9 < (0::int) \<or> (9::int) \<ge> int (length (hd (board (freshSession Beginner))))
      \<or> (0::int) < 0 \<or> (0::int) \<ge> int (length (board (freshSession Beginner)))"
    using l by simp
  from handlers_out_of_range [OF rect_fresh o, of examplePicks] s
  show ?thesis using rect_fresh o by simp
qed

text \<open>
  Claim C6 as stated fails: a click at column 9 of a fresh 9 by 9 session reads
  \<^verbatim>\<open>newBoard[0][9].isFlagged\<close> and throws; neither handler checks its
  coordinates.
\<close>

theorem handleCellClick_throws_counterexample:
  "handleCellClick examplePicks (freshSession Beginner) 9 0
     = Some (Some TypeError, freshSession Beginner)"
  by code_simp

lemma handleCellClick_cases:
  assumes "handleCellClick picks s x y = Some (r, s')"
  obtains
    (ignored) "s' = s" "r = None"
      "status s \<noteq> Playing
       \<or> (\<exists>c0. cellAt (board s) x y = Inr c0 \<and> (isFlagged c0 \<or> isRevealed c0))"
  | (outside) "s' = s" "r \<noteq> None"
  | (thrown) c0 b1 where "s' = s\<lparr>started := True\<rparr>" "r \<noteq> None"
      "status s = Playing" "cellAt (board s) x y = Inr c0" "placedBoard picks s x y b1"
      "cellAt b1 x y = Inl TypeError
       \<or> (\<exists>c1. cellAt b1 x y = Inr c1 \<and> revealCell b1 x y = Inl TypeError)"
  | (lost) c0 b1 c1 where "status s = Playing" "cellAt (board s) x y = Inr c0"
      "\<not> isFlagged c0" "\<not> isRevealed c0" "placedBoard picks s x y b1"
      "cellAt b1 x y = Inr c1" "isMine c1" "r = None"
      "s' = s\<lparr>started := True, status := Lost,
               board := revealMines (setRevealed b1 x y)\<rparr>"
  | (won) c0 b1 c1 b2 where "status s = Playing" "cellAt (board s) x y = Inr c0"
      "\<not> isFlagged c0" "\<not> isRevealed c0" "placedBoard picks s x y b1"
      "cellAt b1 x y = Inr c1" "\<not> isMine c1" "revealCell b1 x y = Inr b2"
      "checkWin b2 (minesOf s)" "r = None"
      "s' = s\<lparr>started := True, status := Won, board := flagMines b2\<rparr>"
  | (continue) c0 b1 c1 b2 where "status s = Playing" "cellAt (board s) x y = Inr c0"
      "\<not> isFlagged c0" "\<not> isRevealed c0" "placedBoard picks s x y b1"
      "cellAt b1 x y = Inr c1" "\<not> isMine c1" "revealCell b1 x y = Inr b2"
      "\<not> checkWin b2 (minesOf s)" "r = None"
      "s' = s\<lparr>started := True, board := b2\<rparr>"
proof (cases "status s = Playing")
  case False
  then have e: "s' = s" "r = None" using assms by (auto simp add: handleCellClick_def)
  have "status s \<noteq> Playing
       \<or> (\<exists>c0. cellAt (board s) x y = Inr c0 \<and> (isFlagged c0 \<or> isRevealed c0))"
    using False by simp
  then show ?thesis by (rule ignored [OF e])
next
  case pl: True
  show ?thesis
  proof (cases "cellAt (board s) x y")
    case (Inl e)
    then have "s' = s" "r \<noteq> None" using assms pl by (auto simp add: handleCellClick_def Let_def)
    then show ?thesis by (rule outside)
  next
    case c0: (Inr c0)
    show ?thesis
    proof (cases "isFlagged c0 \<or> isRevealed c0")
      case True
      then have e: "s' = s" "r = None"
        using assms pl c0 by (auto simp add: handleCellClick_def Let_def)
      have "status s \<noteq> Playing
         \<or> (\<exists>c0. cellAt (board s) x y = Inr c0 \<and> (isFlagged c0 \<or> isRevealed c0))"
        using c0 True by blast
      then show ?thesis by (rule ignored [OF e])
    next
      case hid: False
      then have hf: "\<not> isFlagged c0" and hr: "\<not> isRevealed c0" by simp_all
      define P where "P = (if \<not> started s then placeMines picks (board s) (minesOf s) (x, y)
                      else Some (Inr (board s)))"
      have h: "handleCellClick picks s x y =
         (case P of
            None \<Rightarrow> None
          | Some (Inl e) \<Rightarrow> Some (Some e, s)
          | Some (Inr newBoard1) \<Rightarrow>
              (case cellAt newBoard1 x y of
                 Inl e \<Rightarrow> Some (Some e, s\<lparr>started := True\<rparr>)
               | Inr cell1 \<Rightarrow>
                   if isMine cell1 then
                     Some (None, s\<lparr>started := True, status := Lost,
                       board := revealMines (setRevealed newBoard1 x y)\<rparr>)
                   else
                     (case revealCell newBoard1 x y of
                        Inl e \<Rightarrow> Some (Some e, s\<lparr>started := True\<rparr>)
                      | Inr newBoard2 \<Rightarrow>
                          if checkWin newBoard2 (minesOf s) then
                            Some (None, s\<lparr>started := True, status := Won,
                              board := flagMines newBoard2\<rparr>)
                          else Some (None, s\<lparr>started := True, board := newBoard2\<rparr>))))"
        unfolding handleCellClick_def Let_def P_def minesOf_def revealMines_def flagMines_def
        using pl c0 hid by simp
      show ?thesis
      proof (cases P)
        case None
        then show ?thesis using assms h by simp
      next
        case (Some pr)
        show ?thesis
        proof (cases pr)
          case (Inl e)
          then have "s' = s" "r \<noteq> None" using assms h Some by auto
          then show ?thesis by (rule outside)
        next
          case (Inr b1)
          have pb: "placedBoard picks s x y b1"
            using Some Inr unfolding P_def placedBoard_def by (auto split: if_splits)
          show ?thesis
          proof (cases "cellAt b1 x y")
            case (Inl e)
            then have e: "s' = s\<lparr>started := True\<rparr>" "r \<noteq> None"
              using assms h Some Inr by auto
            have "cellAt b1 x y = Inl TypeError" using Inl by (cases e) simp
            then have "cellAt b1 x y = Inl TypeError
                \<or> (\<exists>c1. cellAt b1 x y = Inr c1 \<and> revealCell b1 x y = Inl TypeError)"
              by simp
            then show ?thesis by (rule thrown [OF e pl c0 pb])
          next
            case c1: (Inr c1)
            show ?thesis
            proof (cases "isMine c1")
              case True
              then have rs: "r = None" "s' = s\<lparr>started := True, status := Lost,
                   board := revealMines (setRevealed b1 x y)\<rparr>"
                using assms h Some Inr c1 by auto
              show ?thesis by (rule lost [OF pl c0 hf hr pb c1 True rs])
            next
              case nm: False
              show ?thesis
              proof (cases "revealCell b1 x y")
                case (Inl e)
                then have e: "s' = s\<lparr>started := True\<rparr>" "r \<noteq> None"
                  using assms h Some Inr c1 nm by auto
                have "revealCell b1 x y = Inl TypeError" using Inl by (cases e) simp
                then have "cellAt b1 x y = Inl TypeError
                    \<or> (\<exists>c1. cellAt b1 x y = Inr c1 \<and> revealCell b1 x y = Inl TypeError)"
                  using c1 by simp
                then show ?thesis by (rule thrown [OF e pl c0 pb])
              next
                case b2: (Inr b2)
                show ?thesis
                proof (cases "checkWin b2 (minesOf s)")
                  case True
                  then have rs: "r = None" "s' = s\<lparr>started := True, status := Won,
                       board := flagMines b2\<rparr>"
                    using assms h Some Inr c1 nm b2 by auto
                  show ?thesis by (rule won [OF pl c0 hf hr pb c1 nm b2 True rs])
                next
                  case False
                  then have rs: "r = None" "s' = s\<lparr>started := True, board := b2\<rparr>"
                    using assms h Some Inr c1 nm b2 by auto
                  show ?thesis by (rule continue [OF pl c0 hf hr pb c1 nm b2 False rs])
                qed
              qed
            qed
          qed
        qed
      qed
    qed
  qed
qed

lemma frame_coarser:
  assumes "map (map g) b' = map (map g) b" "\<And>c. k (g c) = k c"
  shows "map (map k) b' = map (map k) b"
proof -
  have "map (map k) bb = map (map k) (map (map g) bb)" for bb
    by (simp add: assms(2) comp_def)
  then show ?thesis using assms(1) by metis
qed

lemma frame_map:
  assumes "\<And>c. g (f c) = g c"
  shows "map (map g) (map (map f) b) = map (map g) b"
  by (simp add: assms comp_def)

lemma placeMines_frame:
  assumes "placeMines picks b mines initial = Some (Inr b')"
  shows "map (map erasePlacement) b' = map (map erasePlacement) b"
proof -
  from placeMines_split [OF assms] obtain b1 where
    pl: "placeLoop picks 0 b mines initial 0 = Some (Inr b1)" and
    ad: "adjacentLoop b1 (int (length b)) (int (length (hd b)))
          (gridCoords (int (length b)) (int (length (hd b)))) = Inr b'"
    by blast
  from placeLoop_inv [OF pl] have f1: "map (map eraseMine) b1 = map (map eraseMine) b"
    by (simp add: placeInv_def)
  from adjacentLoop_result [OF ad] have f2: "map (map eraseAdjacent) b' = map (map eraseAdjacent) b1"
    by blast
  have "map (map erasePlacement) b1 = map (map erasePlacement) b"
    using f1 by (rule frame_coarser) (simp add: erasePlacement_def eraseMine_def)
  moreover have "map (map erasePlacement) b' = map (map erasePlacement) b1"
    using f2 by (rule frame_coarser) (simp add: erasePlacement_def eraseAdjacent_def)
  ultimately show ?thesis by simp
qed

lemma placeMines_keeps_mines:
  assumes "placeMines picks b mines initial = Some (Inr b')" "mineAt b x y"
  shows "mineAt b' x y"
proof -
  from placeMines_split [OF assms(1)] obtain b1 where
    pl: "placeLoop picks 0 b mines initial 0 = Some (Inr b1)" and
    ad: "adjacentLoop b1 (int (length b)) (int (length (hd b)))
          (gridCoords (int (length b)) (int (length (hd b)))) = Inr b'"
    by blast
  from placeLoop_inv [OF pl] assms(2) have "mineAt b1 x y" by (simp add: placeInv_def)
  moreover from adjacentLoop_result [OF ad]
  have f2: "map (map eraseAdjacent) b' = map (map eraseAdjacent) b1" by blast
  have "mineAt b' x y = mineAt b1 x y"
    using f2 by (rule frame_mineAt) (simp add: eraseAdjacent_fields)
  ultimately show ?thesis by simp
qed

lemma placedBoard_flags:
  assumes "placedBoard picks s x y b1"
  shows "map (map erasePlacement) b1 = map (map erasePlacement) (board s)"
proof (cases "started s")
  case True
  then show ?thesis using assms by (simp add: placedBoard_def)
next
  case False
  then have "placeMines picks (board s) (minesOf s) (x, y) = Some (Inr b1)"
    using assms by (simp add: placedBoard_def)
  then show ?thesis by (rule placeMines_frame)
qed

lemma placedBoard_keeps_mines:
  assumes "placedBoard picks s x y b1" "mineAt (board s) x' y'"
  shows "mineAt b1 x' y'"
proof (cases "started s")
  case True
  then show ?thesis using assms by (simp add: placedBoard_def)
next
  case False
  then have "placeMines picks (board s) (minesOf s) (x, y) = Some (Inr b1)"
    using assms by (simp add: placedBoard_def)
  then show ?thesis using assms(2) by (rule placeMines_keeps_mines)
qed

lemma revealMines_cells:
  "c' \<in> set (concat (revealMines b)) \<Longrightarrow> isMine c' \<Longrightarrow> isRevealed c'"
  unfolding revealMines_def by auto

lemma cellAt_revealMines:
  "cellAt b x y = Inr c \<Longrightarrow>
     cellAt (revealMines b) x y = Inr (if isMine c then c\<lparr>isRevealed := True\<rparr> else c)"
  unfolding revealMines_def cellAt_map by simp

lemma click_mine_result:
  assumes "status s = Playing" "cellAt (board s) x y = Inr c" "\<not> isFlagged c"
    "\<not> isRevealed c" "isMine c" "handleCellClick picks s x y = Some (None, s')"
  shows "\<exists>b1 c1. placedBoard picks s x y b1 \<and> cellAt b1 x y = Inr c1 \<and> isMine c1
      \<and> s' = s\<lparr>started := True, status := Lost, board := revealMines (setRevealed b1 x y)\<rparr>"
proof -
  have m: "mineAt (board s) x y" using assms(2,5) by (simp add: mineAt_def)
  show ?thesis using assms(6)
  proof (cases rule: handleCellClick_cases)
    case ignored
    then show ?thesis using assms by auto
  next
    case outside
    then show ?thesis by simp
  next
    case (thrown c0 b1)
    then show ?thesis by simp
  next
    case (lost c0 b1 c1)
    then show ?thesis by blast
  next
    case (won c0 b1 c1 b2)
    have "mineAt b1 x y" using won(5) m by (rule placedBoard_keeps_mines)
    then show ?thesis using won(6,7) by (simp add: mineAt_def)
  next
    case (continue c0 b1 c1 b2)
    have "mineAt b1 x y" using continue(5) m by (rule placedBoard_keeps_mines)
    then show ?thesis using continue(6,7) by (simp add: mineAt_def)
  qed
qed

lemma click_mine_returns:
  assumes "status s = Playing" "cellAt (board s) x y = Inr c" "\<not> isFlagged c"
    "\<not> isRevealed c" "isMine c" "placedBoard picks s x y b1"
  shows "\<exists>s'. handleCellClick picks s x y = Some (None, s')"
proof -
  have m: "mineAt (board s) x y" using assms(2,5) by (simp add: mineAt_def)
  have "mineAt b1 x y" using assms(6) m by (rule placedBoard_keeps_mines)
  then obtain c1 where c1: "cellAt b1 x y = Inr c1" "isMine c1"
    by (cases "cellAt b1 x y") (auto simp: mineAt_def)
  have P: "(if \<not> started s
            then placeMines picks (board s)
                   (case DIFFICULTIES (difficulty s) of (rows, cols, mines) \<Rightarrow> mines) (x, y)
            else Some (Inr (board s))) = Some (Inr b1)"
    using assms(6) unfolding placedBoard_def minesOf_def by (auto split: if_splits)
  show ?thesis
    unfolding handleCellClick_def Let_def P using assms(1,2,3,4) c1 by simp
qed

lemma lost_board_mines:
  assumes "cellAt b1 x y = Inr c1"
  shows "mineAt b1 x' y' \<Longrightarrow>
     mineAt (revealMines (setRevealed b1 x y)) x' y'
     \<and> revealedAt (revealMines (setRevealed b1 x y)) x' y'"
proof -
  assume "mineAt b1 x' y'"
  then obtain c where c: "cellAt b1 x' y' = Inr c" "isMine c"
    by (cases "cellAt b1 x' y'") (auto simp: mineAt_def)
  have "cellAt (setRevealed b1 x y) x' y'
      = Inr (if x' = x \<and> y' = y then c1\<lparr>isRevealed := True\<rparr> else c)"
    unfolding setRevealed_def cellAt_updCell [OF assms] using c(1) by simp
  moreover have "x' = x \<and> y' = y \<Longrightarrow> c1 = c" using assms c(1) by simp
  ultimately obtain c'' where c'': "cellAt (setRevealed b1 x y) x' y' = Inr c''" "isMine c''"
    using c(2) by (cases "x' = x \<and> y' = y") auto
  show ?thesis
    using cellAt_revealMines [OF c''(1)] c''(2) by (simp add: mineAt_def revealedAt_def)
qed

lemma lost_board_frame:
  "map (map eraseRevealed) (revealMines (setRevealed b1 x y)) = map (map eraseRevealed) b1"
proof -
  have "map (map eraseRevealed) (revealMines (setRevealed b1 x y))
      = map (map eraseRevealed) (setRevealed b1 x y)"
    unfolding revealMines_def by (rule frame_map) (simp add: eraseRevealed_def)
  then show ?thesis using frame_setRevealed [of b1 x y] by simp
qed

lemma lost_board_others:
  assumes "cellAt b1 x y = Inr c1" "isMine c1"
    "cellAt (revealMines (setRevealed b1 x y)) x' y' = Inr c'" "\<not> isMine c'"
  shows "cellAt b1 x' y' = Inr c'"
proof -
  from assms(3) obtain c'' where c'': "cellAt (setRevealed b1 x y) x' y' = Inr c''"
    and e: "c' = (if isMine c'' then c''\<lparr>isRevealed := True\<rparr> else c'')"
    unfolding revealMines_def cellAt_map
    by (cases "cellAt (setRevealed b1 x y) x' y'") auto
  have nm: "\<not> isMine c''" using e assms(4) by (cases "isMine c''") simp_all
  then have cc: "c' = c''" using e by simp
  have "\<not> (x' = x \<and> y' = y)"
  proof
    assume "x' = x \<and> y' = y"
    then have "c'' = c1\<lparr>isRevealed := True\<rparr>"
      using c'' unfolding setRevealed_def cellAt_updCell [OF assms(1)] by simp
    then show False using nm assms(2) by simp
  qed
  then have "cellAt b1 x' y' = Inr c''"
    using c'' unfolding setRevealed_def cellAt_updCell [OF assms(1)] by auto
  then show ?thesis using cc by simp
qed

text \<open>
  Claim C5. In a session with status Playing, a click on a cell that is
  unflagged, unrevealed and a mine returns normally exactly when the placement
  step does: always once the session has started (mines are on the board only
  then), and on an unstarted session when \<open>placeMines\<close> returns a board.
  Whenever it returns normally the status is Lost; every mine of the new board
  is revealed; every cell that was a mine before is still a mine and is
  revealed; the \<open>isFlagged\<close> field of every cell is what it was; and a cell
  that is not a mine keeps its \<open>isRevealed\<close>. In a started session the board
  changes in \<open>isRevealed\<close> fields only, so the mines are the same cells as
  before, and every cell that is not a mine is untouched.
\<close>

theorem reveal_mine_loses:
  assumes "status s = Playing" "cellAt (board s) x y = Inr c" "\<not> isFlagged c"
    "\<not> isRevealed c" "isMine c"
  shows "((\<exists>s'. handleCellClick picks s x y = Some (None, s')) \<longleftrightarrow>
            started s \<or> (\<exists>b1. placeMines picks (board s) (minesOf s) (x, y) = Some (Inr b1)))
       \<and> (\<forall>s'. handleCellClick picks s x y = Some (None, s') \<longrightarrow>
            status s' = Lost
            \<and> (\<forall>c' \<in> set (concat (board s')). isMine c' \<longrightarrow> isRevealed c')
            \<and> (\<forall>x' y'. mineAt (board s) x' y' \<longrightarrow>
                  mineAt (board s') x' y' \<and> revealedAt (board s') x' y')
            \<and> map (map isFlagged) (board s') = map (map isFlagged) (board s)
            \<and> (\<forall>x' y' c'. cellAt (board s') x' y' = Inr c' \<and> \<not> isMine c' \<longrightarrow>
                  (\<exists>c0. cellAt (board s) x' y' = Inr c0 \<and> isRevealed c' = isRevealed c0))
            \<and> (started s \<longrightarrow>
                  map (map isMine) (board s') = map (map isMine) (board s)
                  \<and> map (map eraseRevealed) (board s') = map (map eraseRevealed) (board s)
                  \<and> (\<forall>x' y' c'. cellAt (board s') x' y' = Inr c' \<and> \<not> isMine c' \<longrightarrow>
                        cellAt (board s) x' y' = Inr c')))"
proof (intro conjI allI impI)
  show "(\<exists>s'. handleCellClick picks s x y = Some (None, s')) \<longleftrightarrow>
            started s \<or> (\<exists>b1. placeMines picks (board s) (minesOf s) (x, y) = Some (Inr b1))"
  proof
    assume "\<exists>s'. handleCellClick picks s x y = Some (None, s')"
    then obtain s' where "handleCellClick picks s x y = Some (None, s')" by blast
    from click_mine_result [OF assms this] obtain b1 where "placedBoard picks s x y b1" by blast
    then show "started s \<or> (\<exists>b1. placeMines picks (board s) (minesOf s) (x, y) = Some (Inr b1))"
      unfolding placedBoard_def by (auto split: if_splits)
  next
    assume "started s \<or> (\<exists>b1. placeMines picks (board s) (minesOf s) (x, y) = Some (Inr b1))"
    then have "\<exists>b1. placedBoard picks s x y b1"
      unfolding placedBoard_def by (cases "started s") auto
    then obtain b1 where "placedBoard picks s x y b1" by blast
    then show "\<exists>s'. handleCellClick picks s x y = Some (None, s')"
      by (rule click_mine_returns [OF assms])
  qed
next
  fix s' assume h: "handleCellClick picks s x y = Some (None, s')"
  from click_mine_result [OF assms h] obtain b1 c1 where
    pb: "placedBoard picks s x y b1" and c1: "cellAt b1 x y = Inr c1" "isMine c1"
    and s': "s' = s\<lparr>started := True, status := Lost,
                    board := revealMines (setRevealed b1 x y)\<rparr>"
    by blast
  have bs: "board s' = revealMines (setRevealed b1 x y)" by (simp add: s')
  show "status s' = Lost" by (simp add: s')
  show "\<forall>c' \<in> set (concat (board s')). isMine c' \<longrightarrow> isRevealed c'"
    unfolding bs using revealMines_cells by blast
  show "map (map isFlagged) (board s') = map (map isFlagged) (board s)"
  proof -
    have "map (map isFlagged) (board s') = map (map isFlagged) b1"
      unfolding bs using lost_board_frame [of b1 x y]
      by (rule frame_coarser) (simp add: eraseRevealed_def)
    also have "\<dots> = map (map isFlagged) (board s)"
      using placedBoard_flags [OF pb] by (rule frame_coarser) (simp add: erasePlacement_def)
    finally show ?thesis .
  qed
  {
    fix x' y' c' assume "cellAt (board s') x' y' = Inr c' \<and> \<not> isMine c'"
    then have "cellAt b1 x' y' = Inr c'" unfolding bs using lost_board_others [OF c1] by blast
    from frame_Inr [OF frame_sym [OF placedBoard_flags [OF pb]] this] obtain c0 where
      c0: "cellAt (board s) x' y' = Inr c0" "erasePlacement c0 = erasePlacement c'" by blast
    have "isRevealed c' = isRevealed c0"
      using arg_cong [OF c0(2), of isRevealed] by (simp add: erasePlacement_def)
    then show "\<exists>c0. cellAt (board s) x' y' = Inr c0 \<and> isRevealed c' = isRevealed c0"
      using c0(1) by blast
  }
  {
    fix x' y' assume "mineAt (board s) x' y'"
    with pb have "mineAt b1 x' y'" by (rule placedBoard_keeps_mines)
    from lost_board_mines [OF c1(1) this]
    show "mineAt (board s') x' y'" "revealedAt (board s') x' y'" unfolding bs by blast+
  }
  {
    assume st: "started s"
    then have b1: "b1 = board s" using pb by (simp add: placedBoard_def)
    show "map (map eraseRevealed) (board s') = map (map eraseRevealed) (board s)"
      unfolding bs b1 [symmetric] by (rule lost_board_frame)
    then show "map (map isMine) (board s') = map (map isMine) (board s)"
      by (rule frame_coarser) (simp add: eraseRevealed_def)
    fix x' y' c' assume "cellAt (board s') x' y' = Inr c' \<and> \<not> isMine c'"
    then show "cellAt (board s) x' y' = Inr c'"
      unfolding bs b1 [symmetric] using lost_board_others [OF c1] by blast
  }
qed

theorem reveal_mine_loses_witness:
  "status flaggedExample = Playing \<and> started flaggedExample
   \<and> cellAt (board flaggedExample) 1 1 = Inr (mkCell 1 1 True False False 0)
   \<and> mineAt (board flaggedExample) 1 0 \<and> \<not> revealedAt (board flaggedExample) 1 0
   \<and> cellAt (board flaggedExample) 1 0 = Inr (mkCell 1 0 True False True 0)
   \<and> handleCellClick examplePicks flaggedExample 1 1 = Some (None, lostExample)
   \<and> status lostExample = Lost
   \<and> mineAt (board lostExample) 1 0 \<and> revealedAt (board lostExample) 1 0
   \<and> map (map isFlagged) (board lostExample) = map (map isFlagged) (board flaggedExample)
   \<and> map (map isMine) (board lostExample) = map (map isMine) (board flaggedExample)
   \<and> map (map eraseRevealed) (board lostExample)
        = map (map eraseRevealed) (board flaggedExample)"
proof -
  have p: "status flaggedExample = Playing" by code_simp
  have st: "started flaggedExample" by code_simp
  have c: "cellAt (board flaggedExample) 1 1 = Inr (mkCell 1 1 True False False 0)" by code_simp
  have c10: "cellAt (board flaggedExample) 1 0 = Inr (mkCell 1 0 True False True 0)" by code_simp
  have m: "mineAt (board flaggedExample) 1 0" "\<not> revealedAt (board flaggedExample) 1 0"
    using c10 by (simp_all add: mineAt_def revealedAt_def mkCell_def)
  have f: "\<not> isFlagged (mkCell 1 1 True False False 0)"
    "\<not> isRevealed (mkCell 1 1 True False False 0)" "isMine (mkCell 1 1 True False False 0)"
    by (simp_all add: mkCell_def)
  note t = reveal_mine_loses [OF p c f, of examplePicks]
  from t st obtain s' where s': "handleCellClick examplePicks flaggedExample 1 1 = Some (None, s')"
    by blast
  have "lostExample = afterClick examplePicks flaggedExample 1 1"
    by (simp add: lostExample_def flaggedExample_def startedExample_def)
  then have a: "lostExample = s'" using s' by (simp add: afterClick_def)
  from t s' st m(1) have "status s' = Lost"
    "mineAt (board s') 1 0" "revealedAt (board s') 1 0"
    "map (map isFlagged) (board s') = map (map isFlagged) (board flaggedExample)"
    "map (map isMine) (board s') = map (map isMine) (board flaggedExample)"
    "map (map eraseRevealed) (board s') = map (map eraseRevealed) (board flaggedExample)"
    by blast+
  then show ?thesis using p st c c10 m s' a by simp
qed

section \<open>Game controller: the invariant of reachable sessions\<close>

lemma eraseState_fields:
  "isMine (eraseState c) = isMine c" "adjacent (eraseState c) = adjacent c"
  by (simp_all add: eraseState_def)

lemma frame_rect: "map (map g) b' = map (map g) b \<Longrightarrow> rect b \<Longrightarrow> rect b'"
  by (metis frame_length shape_rect)

lemma consistent_frame:
  assumes "map (map eraseState) b' = map (map eraseState) b" "consistent b"
  shows "consistent b'"
  unfolding consistent_def
proof (intro allI impI)
  fix x y c' assume c': "cellAt b' x y = Inr c'" "\<not> isMine c'"
  from frame_Inr [OF frame_sym [OF assms(1)] c'(1)] obtain c where
    c: "cellAt b x y = Inr c" "eraseState c = eraseState c'" by blast
  have e: "isMine c = isMine c'" "adjacent c = adjacent c'"
    using arg_cong [OF c(2), of isMine] arg_cong [OF c(2), of adjacent]
    by (simp_all add: eraseState_fields)
  have m: "mineNeighbours b' x y = mineNeighbours b x y"
    using assms(1) by (rule mineNeighbours_frame) (simp add: eraseState_fields)
  have "\<not> isMine c \<longrightarrow> adjacent c = mineNeighbours b x y"
    using assms(2) c(1) unfolding consistent_def by blast
  then show "adjacent c' = mineNeighbours b' x y"
    using e m c'(2) by simp
qed

lemma mineNeighbours_zero:
  assumes "mineNeighbours b x y = 0" "adjacent8 (x, y) (x', y')"
  shows "\<not> mineAt b x' y'"
proof -
  have "(x' - x, y' - y) \<in> set neighbourOffsets" using assms(2) by (simp add: adjacent8_offsets)
  then have "(\<lambda>(dx, dy). (x + dx, y + dy)) (x' - x, y' - y)
      \<in> (\<lambda>(dx, dy). (x + dx, y + dy)) ` set neighbourOffsets" by (rule imageI)
  then have "(x', y') \<in> set (map (\<lambda>(dx, dy). (x + dx, y + dy)) neighbourOffsets)" by simp
  moreover have "map (\<lambda>(dx, dy). (x + dx, y + dy)) neighbourOffsets
      = [(x - 1, y - 1), (x, y - 1), (x + 1, y - 1),
         (x - 1, y), (x + 1, y), (x - 1, y + 1), (x, y + 1), (x + 1, y + 1)]"
    by (simp add: neighbourOffsets_eq)
  ultimately have "(x', y') \<in> set [(x - 1, y - 1), (x, y - 1), (x + 1, y - 1),
        (x - 1, y), (x + 1, y), (x - 1, y + 1), (x, y + 1), (x + 1, y + 1)]"
    by simp
  moreover have "filter (\<lambda>(nx, ny). mineAt b nx ny)
       [(x - 1, y - 1), (x, y - 1), (x + 1, y - 1),
        (x - 1, y), (x + 1, y), (x - 1, y + 1), (x, y + 1), (x + 1, y + 1)] = []"
    using assms(1) unfolding mineNeighbours_def by simp
  ultimately show ?thesis unfolding filter_empty_conv by blast
qed

lemma floods_no_mine:
  assumes "consistent b" "\<not> mineAt b x y" "floods b (x, y) p"
  shows "\<not> mineAt b (fst p) (snd p)"
  using assms(3)
proof (induction rule: floods.induct)
  case start
  show ?case using assms(2) by simp
next
  case (step p q)
  from step.hyps(2) obtain c where c: "cellAt b (fst p) (snd p) = Inr c"
    "adjacent c = 0" "\<not> isMine c"
    by (cases "cellAt b (fst p) (snd p)") (auto simp: spreadsAt_def)
  have "\<not> isMine c \<longrightarrow> adjacent c = mineNeighbours b (fst p) (snd p)"
    using assms(1) c(1) unfolding consistent_def by blast
  then have "mineNeighbours b (fst p) (snd p) = 0" using c(2,3) by simp
  moreover have "adjacent8 (fst p, snd p) (fst q, snd q)" using step.hyps(3) by simp
  ultimately show ?case by (rule mineNeighbours_zero)
qed

lemma playable_placed:
  assumes "sessionInv s" "status s = Playing" "placedBoard picks s x y b1"
  shows "playable b1"
proof (cases "started s")
  case True
  then have b1: "b1 = board s" using assms(3) by (simp add: placedBoard_def)
  have "rect (board s)" "consistent (board s)"
    using assms(1) True by (simp_all add: sessionInv_def)
  moreover have "(isMine c \<longrightarrow> \<not> isRevealed c) \<and> \<not> (isRevealed c \<and> isFlagged c)"
    if "cellAt (board s) x' y' = Inr c" for x' y' c
  proof -
    have "(isMine c \<and> status s \<noteq> Lost \<longrightarrow> \<not> isRevealed c)
           \<and> (isRevealed c \<and> isFlagged c \<longrightarrow> isMine c \<and> status s = Lost)"
      using assms(1) that unfolding sessionInv_def by blast
    then show ?thesis using assms(2) by auto
  qed
  ultimately show ?thesis unfolding playable_def b1 by blast
next
  case False
  then have pm: "placeMines picks (board s) (minesOf s) (x, y) = Some (Inr b1)"
    using assms(3) by (simp add: placedBoard_def)
  have r: "rect (board s)" using assms(1) by (simp add: sessionInv_def)
  have f: "map (map erasePlacement) b1 = map (map erasePlacement) (board s)"
    using pm by (rule placeMines_frame)
  have r1: "rect b1" using f r by (rule frame_rect)
  have c1: "consistent b1" unfolding consistent_def
    using placeMines_adjacent [OF r pm] by blast
  have "\<not> isRevealed c \<and> \<not> isFlagged c" if "cellAt b1 x' y' = Inr c" for x' y' c
  proof -
    from frame_Inr [OF frame_sym [OF f] that] obtain c0 where
      c0: "cellAt (board s) x' y' = Inr c0" "erasePlacement c0 = erasePlacement c" by blast
    have "\<not> isRevealed c0 \<and> \<not> isFlagged c0"
      using assms(1) False c0(1) unfolding sessionInv_def by blast
    moreover have "isRevealed c0 = isRevealed c" "isFlagged c0 = isFlagged c"
      using arg_cong [OF c0(2), of isRevealed] arg_cong [OF c0(2), of isFlagged]
      by (simp_all add: erasePlacement_def)
    ultimately show ?thesis by simp
  qed
  then show ?thesis using r1 c1 unfolding playable_def by blast
qed

lemma playable_reveal:
  assumes "playable b1" "cellAt b1 x y = Inr c1" "\<not> isMine c1" "revealCell b1 x y = Inr b2"
  shows "playable b2"
proof -
  have r: "rect b1" and co: "consistent b1" using assms(1) by (simp_all add: playable_def)
  have ib: "inBounds b1 x y" using assms(2) r by (metis cellAt_Inr_iff)
  from revealCellBy_correct [OF r ib, of lifo] assms(4)
  have f: "map (map eraseRevealed) b2 = map (map eraseRevealed) b1"
    and ex: "\<And>x' y'. cellAt b2 x' y' = expectedCell b1 {p. floods b1 (x, y) p} x' y'"
    unfolding revealCell_lifo by auto
  have fs: "map (map eraseState) b2 = map (map eraseState) b1"
    using f by (rule frame_coarser) (simp add: eraseState_def eraseRevealed_def)
  have nm: "\<not> mineAt b1 x y" using assms(2,3) by (simp add: mineAt_def)
  have "(isMine c' \<longrightarrow> \<not> isRevealed c') \<and> \<not> (isRevealed c' \<and> isFlagged c')"
    if c': "cellAt b2 x' y' = Inr c'" for x' y' c'
  proof -
    from c' obtain c where c: "cellAt b1 x' y' = Inr c"
      and e: "c' = (if (x', y') \<in> {p. floods b1 (x, y) p} \<and> \<not> isRevealed c \<and> \<not> isFlagged c
                  then c\<lparr>isRevealed := True\<rparr> else c)"
      unfolding ex expectedCell_def by (cases "cellAt b1 x' y'") auto
    have old: "(isMine c \<longrightarrow> \<not> isRevealed c) \<and> \<not> (isRevealed c \<and> isFlagged c)"
      using assms(1) c unfolding playable_def by blast
    show ?thesis
    proof (cases "(x', y') \<in> {p. floods b1 (x, y) p} \<and> \<not> isRevealed c \<and> \<not> isFlagged c")
      case True
      then have "floods b1 (x, y) (x', y')" by simp
      from floods_no_mine [OF co nm this] have "\<not> isMine c" using c by (simp add: mineAt_def)
      then show ?thesis using True e by simp
    next
      case False
      then have "c' = c" using e by simp
      then show ?thesis using old by simp
    qed
  qed
  then show ?thesis
    using frame_rect [OF fs r] consistent_frame [OF fs co] unfolding playable_def by blast
qed

lemma revealCell_total:
  assumes "rect b" "cellAt b x y = Inr c"
  shows "\<exists>b'. revealCell b x y = Inr b'"
proof -
  have "inBounds b x y" using assms by (metis cellAt_Inr_iff)
  from revealCellBy_correct [OF assms(1) this, of lifo] show ?thesis
    unfolding revealCell_lifo by blast
qed

lemma sessionInv_empty:
  assumes "0 < rows" "board s = createEmptyBoard rows cols" "\<not> started s"
  shows "sessionInv s"
proof -
  have c: "\<not> isMine c \<and> \<not> isRevealed c \<and> \<not> isFlagged c"
    if "cellAt (board s) x y = Inr c" for x y c
  proof -
    have "c \<in> set (concat (createEmptyBoard rows cols))"
      using that unfolding assms(2) cells_iff by blast
    then show ?thesis using createEmptyBoard_cells by blast
  qed
  have "rect (board s)" unfolding assms(2) using assms(1) by (rule rect_createEmptyBoard)
  then show ?thesis using assms(3) c unfolding sessionInv_def by blast
qed

lemma DIFFICULTIES_rows: "DIFFICULTIES d = (rows, cols, mines) \<Longrightarrow> 0 < rows"
  by (cases d) auto

lemma sessionInv_fresh: "sessionInv (freshSession d)"
proof -
  obtain rows cols mines where d: "DIFFICULTIES d = (rows, cols, mines)"
    by (cases "DIFFICULTIES d") auto
  show ?thesis
    by (rule sessionInv_empty [OF DIFFICULTIES_rows [OF d], of _ cols])
      (simp_all add: freshSession_def d)
qed

lemma sessionInv_resetGame: "sessionInv (resetGame s)"
proof -
  obtain rows cols mines where d: "DIFFICULTIES (difficulty s) = (rows, cols, mines)"
    by (cases "DIFFICULTIES (difficulty s)") auto
  show ?thesis
    by (rule sessionInv_empty [OF DIFFICULTIES_rows [OF d], of _ cols])
      (simp_all add: resetGame_def d)
qed

lemma sessionInv_setDifficulty: "sessionInv (setDifficulty d s)"
  unfolding setDifficulty_def by (rule sessionInv_resetGame)

lemma sessionInv_playable:
  assumes "playable b" "board s = b" "started s"
  shows "sessionInv s"
proof -
  have "(isMine c \<and> status s \<noteq> Lost \<longrightarrow> \<not> isRevealed c)
         \<and> (isRevealed c \<and> isFlagged c \<longrightarrow> isMine c \<and> status s = Lost)"
    if "cellAt (board s) x y = Inr c" for x y c
  proof -
    have "(isMine c \<longrightarrow> \<not> isRevealed c) \<and> \<not> (isRevealed c \<and> isFlagged c)"
      using assms(1) that unfolding playable_def assms(2) by blast
    then show ?thesis by blast
  qed
  moreover have "rect (board s)" "consistent (board s)"
    using assms(1) unfolding playable_def assms(2) by blast+
  ultimately show ?thesis using assms(3) unfolding sessionInv_def by blast
qed

lemma playable_flagMines:
  assumes "playable b"
  shows "playable (flagMines b)"
proof -
  have f: "map (map eraseState) (flagMines b) = map (map eraseState) b"
    unfolding flagMines_def by (rule frame_map) (simp add: eraseState_def)
  have r: "rect b" and co: "consistent b" using assms by (simp_all add: playable_def)
  have "(isMine c' \<longrightarrow> \<not> isRevealed c') \<and> \<not> (isRevealed c' \<and> isFlagged c')"
    if c': "cellAt (flagMines b) x y = Inr c'" for x y c'
  proof -
    from c' obtain c where c: "cellAt b x y = Inr c"
      and e: "c' = (if isMine c then c\<lparr>isFlagged := True\<rparr> else c)"
      unfolding flagMines_def cellAt_map by (cases "cellAt b x y") auto
    have "(isMine c \<longrightarrow> \<not> isRevealed c) \<and> \<not> (isRevealed c \<and> isFlagged c)"
      using assms c unfolding playable_def by blast
    then show ?thesis unfolding e by auto
  qed
  then show ?thesis
    using frame_rect [OF f r] consistent_frame [OF f co] unfolding playable_def by blast
qed

lemma sessionInv_lost:
  assumes "playable b1" "cellAt b1 x y = Inr c1" "isMine c1"
    "board s = revealMines (setRevealed b1 x y)" "started s" "status s = Lost"
  shows "sessionInv s"
proof -
  have r: "rect b1" and co: "consistent b1" using assms(1) by (simp_all add: playable_def)
  have "map (map eraseState) (revealMines (setRevealed b1 x y))
      = map (map eraseState) (setRevealed b1 x y)"
    unfolding revealMines_def by (rule frame_map) (simp add: eraseState_def)
  also have "\<dots> = map (map eraseState) b1"
    unfolding setRevealed_def by (rule map_map_updCell) (simp add: eraseState_def)
  finally have f: "map (map eraseState) (board s) = map (map eraseState) b1"
    unfolding assms(4) .
  have "(isMine c' \<and> status s \<noteq> Lost \<longrightarrow> \<not> isRevealed c')
         \<and> (isRevealed c' \<and> isFlagged c' \<longrightarrow> isMine c' \<and> status s = Lost)"
    if c': "cellAt (board s) x' y' = Inr c'" for x' y' c'
  proof -
    from c' obtain c'' where c'': "cellAt (setRevealed b1 x y) x' y' = Inr c''"
      and e: "c' = (if isMine c'' then c''\<lparr>isRevealed := True\<rparr> else c'')"
      unfolding assms(4) revealMines_def cellAt_map
      by (cases "cellAt (setRevealed b1 x y) x' y'") auto
    show ?thesis
    proof (cases "isMine c''")
      case True
      then show ?thesis using e assms(6) by simp
    next
      case False
      have "\<not> (x' = x \<and> y' = y)"
      proof
        assume "x' = x \<and> y' = y"
        then have "c'' = c1\<lparr>isRevealed := True\<rparr>"
          using c'' unfolding setRevealed_def cellAt_updCell [OF assms(2)] by simp
        then show False using False assms(3) by simp
      qed
      then have "cellAt b1 x' y' = Inr c''"
        using c'' unfolding setRevealed_def cellAt_updCell [OF assms(2)] by auto
      then have "\<not> (isRevealed c'' \<and> isFlagged c'')"
        using assms(1) unfolding playable_def by blast
      then show ?thesis using e False assms(6) by simp
    qed
  qed
  then show ?thesis
    using frame_rect [OF f r] consistent_frame [OF f co] assms(5) unfolding sessionInv_def
    by blast
qed

lemma sessionInv_click:
  assumes "sessionInv s" "handleCellClick picks s x y = Some (r, s')"
  shows "sessionInv s'"
  using assms(2)
proof (cases rule: handleCellClick_cases)
  case ignored
  then show ?thesis using assms(1) by simp
next
  case outside
  then show ?thesis using assms(1) by simp
next
  case (thrown c0 b1)
  have p: "playable b1" using assms(1) thrown(3,5) by (rule playable_placed)
  then have r: "rect b1" by (simp add: playable_def)
  from frame_Inr [OF placedBoard_flags [OF thrown(5)] thrown(4)]
  obtain c1 where c1: "cellAt b1 x y = Inr c1" by blast
  from revealCell_total [OF r c1] thrown(6) c1 have False by auto
  then show ?thesis ..
next
  case (lost c0 b1 c1)
  have p: "playable b1" using assms(1) lost(1,5) by (rule playable_placed)
  show ?thesis by (rule sessionInv_lost [OF p lost(6,7)]) (simp_all add: lost(9))
next
  case (won c0 b1 c1 b2)
  have p: "playable b1" using assms(1) won(1,5) by (rule playable_placed)
  have "playable b2" using p won(6,7,8) by (rule playable_reveal)
  then have "playable (flagMines b2)" by (rule playable_flagMines)
  then show ?thesis by (rule sessionInv_playable) (simp_all add: won(11))
next
  case (continue c0 b1 c1 b2)
  have p: "playable b1" using assms(1) continue(1,5) by (rule playable_placed)
  have "playable b2" using p continue(6,7,8) by (rule playable_reveal)
  then show ?thesis by (rule sessionInv_playable) (simp_all add: continue(11))
qed

lemma sessionInv_flag:
  assumes "sessionInv s" "handleCellRightClick s x y = (r, s')"
  shows "sessionInv s'"
proof (cases "status s = Playing \<and> started s")
  case False
  then have "s' = s" using assms(2) by (auto simp add: handleCellRightClick_def)
  then show ?thesis using assms(1) by simp
next
  case ps: True
  show ?thesis
  proof (cases "cellAt (board s) x y")
    case (Inl e)
    then have "s' = s" using assms(2) ps by (auto simp add: handleCellRightClick_def Let_def)
    then show ?thesis using assms(1) by simp
  next
    case c0: (Inr c0)
    show ?thesis
    proof (cases "isRevealed c0")
      case True
      then have "s' = s" using assms(2) ps c0 by (auto simp add: handleCellRightClick_def Let_def)
      then show ?thesis using assms(1) by simp
    next
      case False
      let ?b = "updCell (board s) x y (\<lambda>c. c\<lparr>isFlagged := \<not> isFlagged c\<rparr>)"
      have s': "s' = s\<lparr>board := ?b\<rparr>"
        using assms(2) ps c0 False by (auto simp add: handleCellRightClick_def Let_def)
      have f: "map (map eraseState) ?b = map (map eraseState) (board s)"
        by (rule map_map_updCell) (simp add: eraseState_def)
      have r: "rect (board s)" and co: "consistent (board s)"
        using assms(1) ps by (simp_all add: sessionInv_def)
      have "(isMine c \<and> status s \<noteq> Lost \<longrightarrow> \<not> isRevealed c)
             \<and> (isRevealed c \<and> isFlagged c \<longrightarrow> isMine c \<and> status s = Lost)"
        if c: "cellAt ?b x' y' = Inr c" for x' y' c
      proof (cases "x' = x \<and> y' = y")
        case True
        then have "c = c0\<lparr>isFlagged := \<not> isFlagged c0\<rparr>"
          using c unfolding cellAt_updCell [OF c0] by simp
        then show ?thesis using False by simp
      next
        case ne: False
        then have "cellAt (board s) x' y' = Inr c"
          using c unfolding cellAt_updCell [OF c0] by auto
        then show ?thesis using assms(1) unfolding sessionInv_def by blast
      qed
      then show ?thesis
        using frame_rect [OF f r] consistent_frame [OF f co] ps unfolding sessionInv_def s'
        by simp
    qed
  qed
qed

lemma reachable_sessionInv: "reachable s \<Longrightarrow> sessionInv s"
proof (induction rule: reachable.induct)
  case fresh
  show ?case by (rule sessionInv_fresh)
next
  case (reveal s picks x y r s')
  then show ?case using sessionInv_click by blast
next
  case (flag s x y r s')
  then show ?case using sessionInv_flag by blast
next
  case (reset s)
  show ?case by (rule sessionInv_resetGame)
next
  case (change s d)
  show ?case by (rule sessionInv_setDifficulty)
qed

lemma reachable_afterClick: "reachable s \<Longrightarrow> reachable (afterClick picks s x y)"
proof -
  assume r: "reachable s"
  show ?thesis
  proof (cases "handleCellClick picks s x y")
    case None
    then show ?thesis using r by (simp add: afterClick_def)
  next
    case (Some p)
    obtain e s' where p: "p = (e, s')" by (cases p)
    have "reachable s'" using r Some unfolding p by (rule reachable.reveal)
    then show ?thesis using Some by (simp add: afterClick_def p)
  qed
qed

lemma reachable_afterRightClick: "reachable s \<Longrightarrow> reachable (afterRightClick s x y)"
proof -
  assume r: "reachable s"
  obtain e s' where p: "handleCellRightClick s x y = (e, s')" by (cases "handleCellRightClick s x y")
  have "reachable s'" using r p by (rule reachable.flag)
  then show ?thesis by (simp add: afterRightClick_def p)
qed

lemma reachable_lostExample: "reachable lostExample"
  unfolding lostExample_def
  by (intro reachable_afterClick reachable_afterRightClick reachable.fresh)

text \<open>
  Claim C7, amended. In every session state that the fresh session reaches by
  reveal, flag toggle, reset and difficulty change, a cell that is both
  revealed and flagged is a mine, and the status is then Lost: while the
  status is Playing or Won no cell is both.
\<close>

theorem revealed_and_flagged_only_lost_mines:
  assumes "reachable s"
  shows "\<forall>c \<in> set (concat (board s)). isRevealed c \<and> isFlagged c \<longrightarrow> isMine c \<and> status s = Lost"
proof (intro ballI impI)
  fix c assume c: "c \<in> set (concat (board s))" "isRevealed c \<and> isFlagged c"
  from c(1) obtain x y where "cellAt (board s) x y = Inr c" unfolding cells_iff by blast
  then show "isMine c \<and> status s = Lost"
    using reachable_sessionInv [OF assms] c(2) unfolding sessionInv_def by blast
qed

theorem revealed_and_flagged_only_lost_mines_witness:
  "reachable lostExample
   \<and> mkCell 1 0 True True True 0 \<in> set (concat (board lostExample))
   \<and> isRevealed (mkCell 1 0 True True True 0) \<and> isFlagged (mkCell 1 0 True True True 0)
   \<and> isMine (mkCell 1 0 True True True 0) \<and> status lostExample = Lost"
proof -
  have m: "cellAt (board lostExample) 1 0 = Inr (mkCell 1 0 True True True 0)" by code_simp
  then have i: "mkCell 1 0 True True True 0 \<in> set (concat (board lostExample))"
    unfolding cells_iff by blast
  have rf: "isRevealed (mkCell 1 0 True True True 0) \<and> isFlagged (mkCell 1 0 True True True 0)"
    by (simp add: mkCell_def)
  from revealed_and_flagged_only_lost_mines [OF reachable_lostExample] i rf
  have "isMine (mkCell 1 0 True True True 0) \<and> status lostExample = Lost" by blast
  then show ?thesis using reachable_lostExample i rf by blast
qed

text \<open>
  Claim C7 as stated fails: losing reveals every mine and leaves the flags
  alone, so a mine that was flagged ends up revealed and flagged.
\<close>

theorem revealed_and_flagged_counterexample:
  "reachable lostExample
   \<and> cellAt (board lostExample) 1 0 = Inr (mkCell 1 0 True True True 0)
   \<and> isRevealed (mkCell 1 0 True True True 0) \<and> isFlagged (mkCell 1 0 True True True 0)"
proof -
  have "cellAt (board lostExample) 1 0 = Inr (mkCell 1 0 True True True 0)" by code_simp
  then show ?thesis using reachable_lostExample by (simp add: mkCell_def)
qed

section \<open>A game in which a revealed cell blocks the flood\<close>

text \<open>
  The board of the corridor example arises in play. In \<open>playExample\<close> no cell
  is flagged and (3, 0) lies in the zero component of (0, 0), yet a reveal at
  (0, 0) leaves (3, 0) hidden, because (2, 0) is revealed already.
\<close>

lemma reachable_playExample: "reachable playExample"
  unfolding playExample_def
  by (intro reachable_afterClick reachable_afterRightClick reachable.fresh)

lemma playExample_row:
  "map (\<lambda>x. cellAt (board playExample) x 0) [0, 1, 2, 3]
   = [Inr (mkCell 0 0 False False False 0), Inr (mkCell 1 0 False False False 0),
      Inr (mkCell 2 0 False True False 0), Inr (mkCell 3 0 False False False 0)]"
  by code_simp

lemma playExample_reveal:
  "(case revealCell (board playExample) 0 0 of
      Inl e \<Rightarrow> False
    | Inr b' \<Rightarrow> revealedAt b' 1 0 \<and> \<not> revealedAt b' 3 0)"
  by code_simp

lemma playExample_flags: "countFlags (board playExample) = 0"
  by code_simp

lemma corridor_arises_in_play:
  "reachable playExample
   \<and> countFlags (board playExample) = 0
   \<and> zeroComponent (board playExample) (0, 0) (3, 0)
   \<and> (case revealCell (board playExample) 0 0 of
         Inl e \<Rightarrow> False
       | Inr b' \<Rightarrow> revealedAt b' 1 0 \<and> \<not> revealedAt b' 3 0)"
proof -
  have c: "cellAt (board playExample) 0 0 = Inr (mkCell 0 0 False False False 0)"
    "cellAt (board playExample) 1 0 = Inr (mkCell 1 0 False False False 0)"
    "cellAt (board playExample) 2 0 = Inr (mkCell 2 0 False True False 0)"
    "cellAt (board playExample) 3 0 = Inr (mkCell 3 0 False False False 0)"
    using playExample_row by simp_all
  have z: "zeroAt (board playExample) (0, 0)" "zeroAt (board playExample) (1, 0)"
    "zeroAt (board playExample) (2, 0)" "zeroAt (board playExample) (3, 0)"
    by (simp_all add: zeroAt_def c mkCell_def)
  have a: "adjacent8 (0, 0) (1, 0)" "adjacent8 (1, 0) (2, 0)" "adjacent8 (2, 0) (3, 0)"
    by (simp_all add: adjacent8_def)
  have "zeroComponent (board playExample) (0, 0) (0, 0)"
    using z(1) by (rule zeroComponent.origin)
  then have "zeroComponent (board playExample) (0, 0) (1, 0)"
    using a(1) z(2) by (rule zeroComponent.grow)
  then have "zeroComponent (board playExample) (0, 0) (2, 0)"
    using a(2) z(3) by (rule zeroComponent.grow)
  then have "zeroComponent (board playExample) (0, 0) (3, 0)"
    using a(3) z(4) by (rule zeroComponent.grow)
  then show ?thesis
    using reachable_playExample playExample_flags playExample_reveal by blast
qed

end
